theory Spec2Isabelle
  imports Complex_Main "HOL-Library.Sublist"
begin

section \<open>Text\<close>

text \<open>
  A Python \<open>str\<close> is modelled as a \<^typ>\<open>string\<close>: the list of its code points, each
  below 256. On this range \<open>\d\<close> is exactly the ten ASCII digits and \<open>re.IGNORECASE\<close>
  is exactly ASCII case folding for the letters that occur in the patterns of
  \<open>assignment3.py\<close>. Text with a code point from 256 on, where \<open>\d\<close> and \<open>int\<close> know
  more digits and \<open>re.IGNORECASE\<close> more letters, is not modelled: what is proved of a
  string is proved of the texts below code point 256.
\<close>

definition newline :: char where
  "newline = CHR 0x0A"

definition lower :: "char \<Rightarrow> char" where
  "lower c = (case map_of (zip ''ABCDEFGHIJKLMNOPQRSTUVWXYZ'' ''abcdefghijklmnopqrstuvwxyz'') c of
                Some l \<Rightarrow> l | None \<Rightarrow> c)"

definition is_digit :: "char \<Rightarrow> bool" where
  "is_digit c = (c \<in> set ''0123456789'')"

text \<open>\<open>str.isspace\<close> on code points below 256.\<close>

definition isspace :: "char \<Rightarrow> bool" where
  "isspace c = (c \<in> set [CHR 0x09, CHR 0x0A, CHR 0x0B, CHR 0x0C, CHR 0x0D,
                           CHR 0x1C, CHR 0x1D, CHR 0x1E, CHR 0x1F, CHR 0x20, CHR 0x85, CHR 0xA0])"

section \<open>The regular expressions of module \<open>re\<close> that the program uses\<close>

text \<open>
  Every pattern of the program is compiled with \<open>re.IGNORECASE\<close>, so a literal matches
  up to case. \<open>Dot\<close> is \<open>.\<close> (any character but the line feed), \<open>Digit\<close> is \<open>\d\<close>,
  \<open>Space\<close> is \<open>\s\<close>, \<open>OneOf ''012''\<close> is the class \<open>[0-2]\<close>, \<open>Eol\<close> is \<open>$\<close>: the end
  of the string, or the position of a line feed that ends the string.
\<close>

datatype regex =
    Str string
  | Dot
  | Digit
  | Space
  | OneOf string
  | Seq regex regex
  | Alt regex regex
  | Star regex
  | Eol

definition rplus :: "regex \<Rightarrow> regex" where
  "rplus r = Seq r (Star r)"

text \<open>
  The matcher backtracks as \<open>re\<close> does: \<open>rmatch r s\<close> lists, in the order in which the
  engine tries them, the rests of \<open>s\<close> after each way of matching \<open>r\<close> at the start of
  \<open>s\<close>. An alternation tries its left branch first, a star is greedy.
\<close>

fun one_char :: "(char \<Rightarrow> bool) \<Rightarrow> string \<Rightarrow> string list" where
  "one_char P [] = []"
| "one_char P (x # t) = (if P x then [t] else [])"

fun star_iter :: "(string \<Rightarrow> string list) \<Rightarrow> nat \<Rightarrow> string \<Rightarrow> string list" where
  "star_iter f 0 s = [s]"
| "star_iter f (Suc n) s =
     concat (map (\<lambda>t. if length t < length s then star_iter f n t else []) (f s)) @ [s]"

primrec rmatch :: "regex \<Rightarrow> string \<Rightarrow> string list" where
  "rmatch (Str w) = (\<lambda>s. if length w \<le> length s \<and> map lower (take (length w) s) = map lower w
                          then [drop (length w) s] else [])"
| "rmatch Dot = one_char (\<lambda>x. x \<noteq> newline)"
| "rmatch Digit = one_char is_digit"
| "rmatch Space = one_char isspace"
| "rmatch (OneOf cs) = one_char (\<lambda>x. x \<in> set cs)"
| "rmatch (Seq a b) = (\<lambda>s. concat (map (rmatch b) (rmatch a s)))"
| "rmatch (Alt a b) = (\<lambda>s. rmatch a s @ rmatch b s)"
| "rmatch (Star a) = (\<lambda>s. star_iter (rmatch a) (length s) s)"
| "rmatch Eol = (\<lambda>s. if s = [] \<or> s = [newline] then [s] else [])"

text \<open>\<open>pattern.match(s)\<close> matches at the start of \<open>s\<close>; \<open>pattern.search(s)\<close> at any position.\<close>

definition re_match :: "regex \<Rightarrow> string \<Rightarrow> bool" where
  "re_match r s = (rmatch r s \<noteq> [])"

fun re_search :: "regex \<Rightarrow> string \<Rightarrow> bool" where
  "re_search r [] = re_match r []"
| "re_search r (c # cs) = (re_match r (c # cs) \<or> re_search r cs)"

section \<open>Log entries\<close>

record log_entry =
  path :: string
  datetime :: string
  browser :: string
  status :: string
  size' :: string

section \<open>\<open>collections.Counter\<close>\<close>

text \<open>
  A \<open>Counter\<close> is a dictionary, which keeps its keys in the order of their first
  insertion: an association list with distinct keys.  \<open>c[k] += 1\<close> reads 0 for a
  missing key and appends it.
\<close>

type_synonym 'k counter = "('k \<times> int) list"

fun counter_incr :: "'k \<Rightarrow> 'k counter \<Rightarrow> 'k counter" where
  "counter_incr k [] = [(k, 1)]"
| "counter_incr k ((k', n) # kvs) =
     (if k = k' then (k', n + 1) # kvs else (k', n) # counter_incr k kvs)"

text \<open>
  \<open>most_common(1)\<close> is \<open>heapq.nlargest(1, items, key=count)\<close>, which is \<open>max\<close> over the
  items in dictionary order: a later item replaces the best one only when its count is
  strictly greater.
\<close>

fun max_by_count :: "'k \<times> int \<Rightarrow> 'k counter \<Rightarrow> 'k \<times> int" where
  "max_by_count best [] = best"
| "max_by_count best (x # xs) = max_by_count (if snd best < snd x then x else best) xs"

fun most_common1 :: "'k counter \<Rightarrow> ('k \<times> int) list" where
  "most_common1 [] = []"
| "most_common1 (x # xs) = [max_by_count x xs]"

section \<open>\<open>find_most_popular_browser\<close>\<close>

definition firefox_regex :: regex where
  "firefox_regex = Seq (Str ''Firefox/'') (rplus Digit)"

definition chrome_regex :: regex where
  "chrome_regex = Seq (Str ''Chrome/'') (rplus Digit)"

definition ie_regex :: regex where
  "ie_regex = Alt (Seq (Str ''MSIE '') (rplus Digit)) (Seq (Str ''Trident/'') (rplus Digit))"

definition safari_regex :: regex where
  "safari_regex = Seq (Str ''Safari/'') (rplus Digit)"

text \<open>The \<open>if\<close>/\<open>elif\<close> chain of the loop body: the key whose count the entry increments.\<close>

definition browser_key :: "string \<Rightarrow> string" where
  "browser_key user_agent =
     (if re_search firefox_regex user_agent then ''Firefox''
      else if re_search chrome_regex user_agent then ''Chrome''
      else if re_search ie_regex user_agent then ''Internet Explorer''
      else if re_search safari_regex user_agent \<and> \<not> re_search chrome_regex user_agent then ''Safari''
      else ''Other'')"

fun count_browsers :: "string counter \<Rightarrow> log_entry list \<Rightarrow> string counter" where
  "count_browsers browser_counts [] = browser_counts"
| "count_browsers browser_counts (entry # data) =
     count_browsers (counter_incr (browser_key (browser entry)) browser_counts) data"

definition find_most_popular_browser :: "log_entry list \<Rightarrow> string \<times> int" where
  "find_most_popular_browser data =
     (case most_common1 (count_browsers [] data) of
        [] \<Rightarrow> (''None'', 0)
      | most_popular # _ \<Rightarrow> most_popular)"

text \<open>
  The chain as section 9 of the specification proposes to flatten it: the same order of
  tests, the Safari test without the check for Chrome.
\<close>

definition browser_key_flat :: "string \<Rightarrow> string" where
  "browser_key_flat user_agent =
     (if re_search firefox_regex user_agent then ''Firefox''
      else if re_search chrome_regex user_agent then ''Chrome''
      else if re_search ie_regex user_agent then ''Internet Explorer''
      else if re_search safari_regex user_agent then ''Safari''
      else ''Other'')"

section \<open>The arithmetic of \<open>int\<close> and \<open>float\<close>\<close>

text \<open>
  A finite \<open>float\<close> is an IEEE 754 double; it is modelled as the rational number that
  it denotes. \<open>fl x\<close> is the double nearest to \<open>x\<close>, the even one of two that are equally
  near. It is a multiple of the unit in the last place of \<open>x\<close>, which is \<open>2 powi (e - 52)\<close>
  when \<open>2 powi e \<le> \<bar>x\<bar> < 2 powi (e + 1)\<close>, and \<open>2 powi (- 1074)\<close> when \<open>\<bar>x\<bar> < 2 powi (- 1022)\<close>.
\<close>

fun bit_length :: "nat \<Rightarrow> nat" where
  "bit_length n = (if n = 0 then 0 else Suc (bit_length (n div 2)))"

declare bit_length.simps [simp del]

text \<open>The \<open>e\<close> with \<open>2 powi e \<le> x < 2 powi (e + 1)\<close>, for \<open>x\<close> positive.\<close>

definition exponent :: "rat \<Rightarrow> int" where
  "exponent x =
     (if 1 \<le> x then int (bit_length (nat \<lfloor>x\<rfloor>)) - 1
      else let k = int (bit_length (nat \<lfloor>1 / x\<rfloor>)) - 1
           in if 2 powi (- k) \<le> x then - k else - k - 1)"

definition round_half_even :: "rat \<Rightarrow> int" where
  "round_half_even z =
     (let n = \<lfloor>z\<rfloor>; r = z - of_int n
      in if r < 1 / 2 then n else if 1 / 2 < r then n + 1 else if even n then n else n + 1)"

definition ulp :: "rat \<Rightarrow> rat" where
  "ulp x = 2 powi (max (exponent \<bar>x\<bar>) (- 1022) - 52)"

definition fl :: "rat \<Rightarrow> rat" where
  "fl x = (if x = 0 then 0 else of_int (round_half_even (x / ulp x)) * ulp x)"

text \<open>
  \<open>a / b\<close> on two \<open>int\<close> is the double nearest to the quotient; it raises
  \<open>ZeroDivisionError\<close> when \<open>b\<close> is 0 and \<open>OverflowError\<close> when the quotient is too large
  for a double. \<open>x * y\<close> on a \<open>float\<close> and an \<open>int\<close> that is a double is the double nearest
  to the product (here the product is at most 100, far from the largest double).
\<close>

datatype py_error = ZeroDivisionError | OverflowError

definition int_truediv :: "int \<Rightarrow> int \<Rightarrow> py_error + rat" where
  "int_truediv a b =
     (if b = 0 then Inl ZeroDivisionError
      else let q = fl (of_int a / of_int b)
           in if q \<noteq> 0 \<and> 1024 \<le> exponent \<bar>q\<bar> then Inl OverflowError else Inr q)"

definition float_mul :: "rat \<Rightarrow> rat \<Rightarrow> rat" where
  "float_mul x y = fl (x * y)"

section \<open>\<open>find_image_requests\<close>\<close>

definition image_regex :: regex where
  "image_regex =
     Seq (Star Dot) (Seq (Str ''.'') (Seq (Alt (Str ''jpg'') (Alt (Str ''gif'') (Str ''png''))) Eol))"

fun count_images :: "int \<Rightarrow> log_entry list \<Rightarrow> int" where
  "count_images image_count [] = image_count"
| "count_images image_count (entry # data) =
     count_images (if re_match image_regex (path entry) then image_count + 1 else image_count) data"

text \<open>
  The percentage is a \<open>float\<close> when there are records and the \<open>int\<close> 0 when there are
  none; an exception of the division would leave the function.
\<close>

definition find_image_requests :: "log_entry list \<Rightarrow> py_error + int \<times> rat" where
  "find_image_requests data =
     (let image_count = count_images 0 data;
          total_requests = int (length data)
      in if total_requests > 0
         then (case int_truediv image_count total_requests of
                 Inl e \<Rightarrow> Inl e
               | Inr q \<Rightarrow> Inr (image_count, float_mul q 100))
         else Inr (image_count, 0))"

section \<open>\<open>datetime.strptime\<close> with the format \<open>%m/%d/%Y %H:%M:%S\<close>\<close>

text \<open>
  \<open>_strptime\<close> turns the format into a regular expression with one named group for each
  directive, \<open>\s+\<close> for the blank and the other characters as they are:
  \<^verbatim>\<open>(?P<m>1[0-2]|0[1-9]|[1-9])/(?P<d>3[0-1]|[1-2]\d|0[1-9]|[1-9]| [1-9])/(?P<Y>\d\d\d\d)\<close>
  \<^verbatim>\<open>\s+(?P<H>2[0-3]|[0-1]\d|\d):(?P<M>[0-5]\d|\d):(?P<S>6[0-1]|[0-5]\d|\d)\<close>
\<close>

definition m_regex :: regex where
  "m_regex = Alt (Seq (Str ''1'') (OneOf ''012''))
            (Alt (Seq (Str ''0'') (OneOf ''123456789''))
                 (OneOf ''123456789''))"

definition d_regex :: regex where
  "d_regex = Alt (Seq (Str ''3'') (OneOf ''01''))
            (Alt (Seq (OneOf ''12'') Digit)
            (Alt (Seq (Str ''0'') (OneOf ''123456789''))
            (Alt (OneOf ''123456789'')
                 (Seq (Str '' '') (OneOf ''123456789'')))))"

definition Y_regex :: regex where
  "Y_regex = Seq Digit (Seq Digit (Seq Digit Digit))"

definition H_regex :: regex where
  "H_regex = Alt (Seq (Str ''2'') (OneOf ''0123''))
            (Alt (Seq (OneOf ''01'') Digit)
                 Digit)"

definition M_regex :: regex where
  "M_regex = Alt (Seq (OneOf ''012345'') Digit) Digit"

definition S_regex :: regex where
  "S_regex = Alt (Seq (Str ''6'') (OneOf ''01''))
            (Alt (Seq (OneOf ''012345'') Digit)
                 Digit)"

text \<open>A group: each way of matching, with the text it captures and the rest.\<close>

definition group :: "regex \<Rightarrow> string \<Rightarrow> (string \<times> string) list" where
  "group r s = map (\<lambda>t. (take (length s - length t) s, t)) (rmatch r s)"

text \<open>The matches of the whole expression at the start of the text, the first one first.\<close>

definition format_regex ::
  "string \<Rightarrow> ((string \<times> string \<times> string \<times> string \<times> string \<times> string) \<times> string) list" where
  "format_regex s0 =
     [((m, d, Y, H, M, S), s11).
        (m, s1) \<leftarrow> group m_regex s0, s2 \<leftarrow> rmatch (Str ''/'') s1,
        (d, s3) \<leftarrow> group d_regex s2, s4 \<leftarrow> rmatch (Str ''/'') s3,
        (Y, s5) \<leftarrow> group Y_regex s4, s6 \<leftarrow> rmatch (rplus Space) s5,
        (H, s7) \<leftarrow> group H_regex s6, s8 \<leftarrow> rmatch (Str '':'') s7,
        (M, s9) \<leftarrow> group M_regex s8, s10 \<leftarrow> rmatch (Str '':'') s9,
        (S, s11) \<leftarrow> group S_regex s10]"

text \<open>\<open>str.strip()\<close>, and \<open>int()\<close> on what a group captures: digits, after a blank or not.\<close>

definition strip :: "string \<Rightarrow> string" where
  "strip s = rev (dropWhile isspace (rev (dropWhile isspace s)))"

definition digit_value :: "char \<Rightarrow> int" where
  "digit_value c = int (of_char c) - 48"

definition py_int :: "string \<Rightarrow> int" where
  "py_int s = foldl (\<lambda>n c. 10 * n + digit_value c) 0 (strip s)"

record datetime_obj =
  year :: int
  month :: int
  day :: int
  hour :: int
  minute :: int
  second :: int

definition is_leap :: "int \<Rightarrow> bool" where
  "is_leap y = (y mod 4 = 0 \<and> (y mod 100 \<noteq> 0 \<or> y mod 400 = 0))"

definition days_in_month :: "int \<Rightarrow> int \<Rightarrow> int" where
  "days_in_month y m =
     (if m = 2 then (if is_leap y then 29 else 28)
      else if m = 4 \<or> m = 6 \<or> m = 9 \<or> m = 11 then 30 else 31)"

text \<open>
  The constructor of \<open>datetime\<close> checks its fields and raises \<open>ValueError\<close> as the two
  tests on the match do; \<open>None\<close> is that exception.
\<close>

definition check_fields :: "datetime_obj \<Rightarrow> datetime_obj option" where
  "check_fields t =
     (if 1 \<le> year t \<and> year t \<le> 9999 \<and> 1 \<le> month t \<and> month t \<le> 12
         \<and> 1 \<le> day t \<and> day t \<le> days_in_month (year t) (month t)
         \<and> 0 \<le> hour t \<and> hour t \<le> 23 \<and> 0 \<le> minute t \<and> minute t \<le> 59
         \<and> 0 \<le> second t \<and> second t \<le> 59
      then Some t else None)"

definition strptime :: "string \<Rightarrow> datetime_obj option" where
  "strptime data_string =
     (case format_regex data_string of
        [] \<Rightarrow> None
      | ((m, d, Y, H, M, S), rest) # _ \<Rightarrow>
          if rest \<noteq> [] then None
          else check_fields \<lparr>year = py_int Y, month = py_int m, day = py_int d,
                             hour = py_int H, minute = py_int M, second = py_int S\<rparr>)"

section \<open>\<open>analyze_hits_by_hour\<close>\<close>

fun count_hours :: "int counter \<Rightarrow> log_entry list \<Rightarrow> int counter" where
  "count_hours hour_counts [] = hour_counts"
| "count_hours hour_counts (entry # data) =
     (case strptime (datetime entry) of
        None \<Rightarrow> count_hours hour_counts data
      | Some date_obj \<Rightarrow> count_hours (counter_incr (hour date_obj) hour_counts) data)"

text \<open>
  \<open>sorted(items, key=count, reverse=True)\<close> is stable: items of equal count keep their
  order. It is the stable sort by the negated count.
\<close>

definition analyze_hits_by_hour :: "log_entry list \<Rightarrow> (int \<times> int) list" where
  "analyze_hits_by_hour data = sort_key (\<lambda>x. - snd x) (count_hours [] data)"

section \<open>\<open>process_csv\<close>\<close>

text \<open>\<open>str.splitlines()\<close>: a carriage return and the line feed after it are one break.\<close>

definition linebreak :: "char \<Rightarrow> bool" where
  "linebreak c = (c \<in> set [CHR 0x0A, CHR 0x0B, CHR 0x0C, CHR 0x0D,
                             CHR 0x1C, CHR 0x1D, CHR 0x1E, CHR 0x85])"

fun split_from :: "string \<Rightarrow> string \<Rightarrow> string list" where
  "split_from line [] = (if line = [] then [] else [line])"
| "split_from line (c # cs) =
     (if linebreak c
      then line # split_from [] (if c = CHR 0x0D \<and> cs \<noteq> [] \<and> hd cs = CHR 0x0A then tl cs else cs)
      else split_from (line @ [c]) cs)"

definition splitlines :: "string \<Rightarrow> string list" where
  "splitlines data = split_from [] data"

text \<open>
  \<open>csv.reader\<close> with the default dialect (delimiter \<open>,\<close>, quote character \<open>"\<close> doubled
  inside a quoted field, no escape character, not strict), as the state machine of
  \<open>_csv\<close> runs it. \<open>None\<close> is the end of a line. A field of more than 131072 characters
  raises \<open>_csv.Error\<close>, and so does a character after a line break inside a line.
\<close>

datatype parser_state =
  START_RECORD | START_FIELD | IN_FIELD | IN_QUOTED_FIELD | QUOTE_IN_QUOTED_FIELD | EAT_CRNL

datatype csv_error = Field_limit | Newline_in_unquoted_field

record reader =
  state :: parser_state
  fields' :: "string list"
  field :: string

definition field_limit :: nat where
  "field_limit = 131072"

definition parse_reset :: reader where
  "parse_reset = \<lparr>state = START_RECORD, fields' = [], field = []\<rparr>"

definition parse_save_field :: "reader \<Rightarrow> reader" where
  "parse_save_field self = self\<lparr>fields' := fields' self @ [field self], field := []\<rparr>"

definition parse_add_char :: "reader \<Rightarrow> char \<Rightarrow> csv_error + reader" where
  "parse_add_char self c =
     (if field_limit \<le> length (field self) then Inl Field_limit
      else Inr (self\<lparr>field := field self @ [c]\<rparr>))"

definition is_crnl :: "char option \<Rightarrow> bool" where
  "is_crnl c = (c = Some (CHR 0x0A) \<or> c = Some (CHR 0x0D))"

definition set_state :: "parser_state \<Rightarrow> csv_error + reader \<Rightarrow> csv_error + reader" where
  "set_state st r = map_sum id (\<lambda>self. self\<lparr>state := st\<rparr>) r"

fun start_field :: "reader \<Rightarrow> char option \<Rightarrow> csv_error + reader" where
  "start_field self None = Inr ((parse_save_field self)\<lparr>state := START_RECORD\<rparr>)"
| "start_field self (Some c) =
     (if is_crnl (Some c) then Inr ((parse_save_field self)\<lparr>state := EAT_CRNL\<rparr>)
      else if c = CHR 0x22 then Inr (self\<lparr>state := IN_QUOTED_FIELD\<rparr>)
      else if c = CHR '','' then Inr (parse_save_field self)
      else set_state IN_FIELD (parse_add_char self c))"

fun parse_process_char :: "reader \<Rightarrow> char option \<Rightarrow> csv_error + reader" where
  "parse_process_char self c =
     (case state self of
        START_RECORD \<Rightarrow>
          (if c = None then Inr self
           else if is_crnl c then Inr (self\<lparr>state := EAT_CRNL\<rparr>)
           else start_field (self\<lparr>state := START_FIELD\<rparr>) c)
      | START_FIELD \<Rightarrow> start_field self c
      | IN_FIELD \<Rightarrow>
          (case c of
             None \<Rightarrow> Inr ((parse_save_field self)\<lparr>state := START_RECORD\<rparr>)
           | Some x \<Rightarrow>
               if is_crnl c then Inr ((parse_save_field self)\<lparr>state := EAT_CRNL\<rparr>)
               else if x = CHR '','' then Inr ((parse_save_field self)\<lparr>state := START_FIELD\<rparr>)
               else parse_add_char self x)
      | IN_QUOTED_FIELD \<Rightarrow>
          (case c of
             None \<Rightarrow> Inr self
           | Some x \<Rightarrow>
               if x = CHR 0x22 then Inr (self\<lparr>state := QUOTE_IN_QUOTED_FIELD\<rparr>)
               else parse_add_char self x)
      | QUOTE_IN_QUOTED_FIELD \<Rightarrow>
          (case c of
             None \<Rightarrow> Inr ((parse_save_field self)\<lparr>state := START_RECORD\<rparr>)
           | Some x \<Rightarrow>
               if x = CHR 0x22 then set_state IN_QUOTED_FIELD (parse_add_char self x)
               else if x = CHR '','' then Inr ((parse_save_field self)\<lparr>state := START_FIELD\<rparr>)
               else if is_crnl c then Inr ((parse_save_field self)\<lparr>state := EAT_CRNL\<rparr>)
               else set_state IN_FIELD (parse_add_char self x))
      | EAT_CRNL \<Rightarrow>
          (if is_crnl c then Inr self
           else if c = None then Inr (self\<lparr>state := START_RECORD\<rparr>)
           else Inl Newline_in_unquoted_field))"

text \<open>The characters of one line, then the end of the line.\<close>

fun parse_line :: "reader \<Rightarrow> string \<Rightarrow> csv_error + reader" where
  "parse_line self [] = parse_process_char self None"
| "parse_line self (c # cs) =
     (case parse_process_char self (Some c) of
        Inl e \<Rightarrow> Inl e
      | Inr self' \<Rightarrow> parse_line self' cs)"

text \<open>
  The rows that iterating over the reader yields. A row is complete when a line ends
  in state \<open>START_RECORD\<close>; a quoted field that is open at the end of a line goes on in
  the next line, and at the end of the input what has been read is a row.
\<close>

fun reader_rows :: "reader \<Rightarrow> string list \<Rightarrow> csv_error + string list list" where
  "reader_rows self [] =
     (if field self \<noteq> [] \<or> state self = IN_QUOTED_FIELD
      then Inr [fields' (parse_save_field self)] else Inr [])"
| "reader_rows self (line # lines) =
     (case parse_line self line of
        Inl e \<Rightarrow> Inl e
      | Inr self' \<Rightarrow>
          if state self' \<noteq> START_RECORD then reader_rows self' lines
          else (case reader_rows parse_reset lines of
                  Inl e \<Rightarrow> Inl e
                | Inr rows \<Rightarrow> Inr (fields' self' # rows)))"

definition csv_reader :: "string list \<Rightarrow> csv_error + string list list" where
  "csv_reader lines = reader_rows parse_reset lines"

fun collect_entries :: "log_entry list \<Rightarrow> string list list \<Rightarrow> log_entry list" where
  "collect_entries processed_data [] = processed_data"
| "collect_entries processed_data (row # rows) =
     collect_entries
       (if length row \<ge> 5
        then processed_data @ [\<lparr>path = strip (row ! 0), datetime = strip (row ! 1),
                                 browser = strip (row ! 2), status = strip (row ! 3),
                                 size' = strip (row ! 4)\<rparr>]
        else processed_data) rows"

text \<open>An error of the reader leaves \<open>process_csv\<close> as the exception \<open>_csv.Error\<close>.\<close>

definition process_csv :: "string \<Rightarrow> csv_error + log_entry list" where
  "process_csv data =
     (case csv_reader (splitlines data) of
        Inl e \<Rightarrow> Inl e
      | Inr rows \<Rightarrow> Inr (collect_entries [] rows))"

section \<open>Vocabulary of the specification\<close>

text \<open>
  An agent string contains a version token \<open>name<digits>\<close> when the name, in any case,
  occurs in it with a digit after it.
\<close>

definition has_token :: "string \<Rightarrow> string \<Rightarrow> bool" where
  "has_token name s \<longleftrightarrow>
     (\<exists>pre w d post. s = pre @ w @ d # post \<and> map lower w = map lower name \<and> is_digit d)"

text \<open>
  Reading a counter: \<open>c[k]\<close> is 0 for a key that is not in it.
\<close>

definition counter_get :: "'k counter \<Rightarrow> 'k \<Rightarrow> int" where
  "counter_get c k = (case map_of c k of None \<Rightarrow> 0 | Some n \<Rightarrow> n)"

text \<open>
  The position in a sequence at which a key occurs first (the length of the sequence
  when it does not occur), and the keys of the records of a list, in the order of the
  scan.
\<close>

definition first_hit :: "'k \<Rightarrow> 'k list \<Rightarrow> nat" where
  "first_hit k ks = length (takeWhile (\<lambda>x. x \<noteq> k) ks)"

definition keys_of :: "log_entry list \<Rightarrow> string list" where
  "keys_of data = map (\<lambda>entry. browser_key (browser entry)) data"

text \<open>The hours of the records whose timestamp parses, in the order of the scan.\<close>

definition hours_of :: "log_entry list \<Rightarrow> int list" where
  "hours_of data = List.map_filter (\<lambda>entry. map_option hour (strptime (datetime entry))) data"

text \<open>
  A path ends in an extension up to case; an image path ends in \<open>.jpg\<close>, \<open>.gif\<close> or
  \<open>.png\<close>.
\<close>

definition ends_with_ci :: "string \<Rightarrow> string \<Rightarrow> bool" where
  "ends_with_ci ext p =
     (length ext \<le> length p \<and> map lower (drop (length p - length ext) p) = map lower ext)"

definition image_path :: "string \<Rightarrow> bool" where
  "image_path p = (ends_with_ci ''.jpg'' p \<or> ends_with_ci ''.gif'' p \<or> ends_with_ci ''.png'' p)"



text \<open>
  The shape of a timestamp that \<open>strptime\<close> accepts with the format
  \<open>%m/%d/%Y %H:%M:%S\<close>: month, hour, minute and second of one or two digits, the day
  of one or two digits or a blank and a digit from 1 to 9, a year of four digits, and
  one or more whitespace characters between date and time. \<open>fields_of\<close> are the numbers
  that the six groups stand for.
\<close>

definition digits12 :: "string \<Rightarrow> bool" where
  "digits12 tok \<longleftrightarrow> (length tok = 1 \<or> length tok = 2) \<and> (\<forall>c \<in> set tok. is_digit c)"

definition day_token :: "string \<Rightarrow> bool" where
  "day_token d \<longleftrightarrow> digits12 d \<or> (\<exists>c \<in> set ''123456789''. d = [CHR '' '', c])"

definition fields_of :: "string \<times> string \<times> string \<times> string \<times> string \<times> string \<Rightarrow> datetime_obj" where
  "fields_of g = (case g of (m, d, Y, H, M, S) \<Rightarrow>
     \<lparr>year = py_int Y, month = py_int m, day = py_int d,
      hour = py_int H, minute = py_int M, second = py_int S\<rparr>)"

definition timestamp_shape ::
  "string \<Rightarrow> string \<times> string \<times> string \<times> string \<times> string \<times> string \<Rightarrow> bool" where
  "timestamp_shape ts g = (case g of (m, d, Y, H, M, S) \<Rightarrow>
     \<exists>ws. ts = m @ ''/'' @ d @ ''/'' @ Y @ ws @ H @ '':'' @ M @ '':'' @ S
        \<and> digits12 m \<and> day_token d \<and> length Y = 4 \<and> (\<forall>c \<in> set Y. is_digit c)
        \<and> ws \<noteq> [] \<and> (\<forall>c \<in> set ws. isspace c)
        \<and> digits12 H \<and> digits12 M \<and> digits12 S)"

text \<open>
  The first way in which a pattern matches a text takes all of it; a number read from
  a text is in a range exactly when the pattern accepts the text that way. A character
  is inert when matching it up to case is matching it. A pattern is sound for a
  property when all that it can take from the front of a text has the property.
\<close>

definition full_first :: "regex \<Rightarrow> string \<Rightarrow> bool" where
  "full_first r tok = (case rmatch r tok of [] \<Rightarrow> False | t # _ \<Rightarrow> t = [])"

definition in_range :: "regex \<Rightarrow> int \<Rightarrow> int \<Rightarrow> string \<Rightarrow> bool" where
  "in_range r lo hi tok \<longleftrightarrow> ((lo \<le> py_int tok \<and> py_int tok \<le> hi) = full_first r tok)"

definition inert :: "char \<Rightarrow> bool" where
  "inert c \<longleftrightarrow> lower c = c \<and> c \<notin> set ''abcdefghijklmnopqrstuvwxyz''"

definition tok_sound :: "(string \<Rightarrow> bool) \<Rightarrow> regex \<Rightarrow> bool" where
  "tok_sound P r \<longleftrightarrow> (\<forall>s t. t \<in> set (rmatch r s) \<longrightarrow> (\<exists>tok. s = tok @ t \<and> P tok))"

text \<open>
  The record that \<open>process_csv\<close> makes of a row, what the reader makes of one line read
  on its own (\<open>None\<close> when the line leaves a quoted field open or raises), and a line
  split at its commas as \<open>str.split(',')\<close> does, the empty line having no field.
\<close>

definition entry_of :: "string list \<Rightarrow> log_entry" where
  "entry_of row = \<lparr>path = strip (row ! 0), datetime = strip (row ! 1), browser = strip (row ! 2),
                   status = strip (row ! 3), size' = strip (row ! 4)\<rparr>"

definition line_fields :: "string \<Rightarrow> string list option" where
  "line_fields line =
     (case parse_line parse_reset line of
        Inl e \<Rightarrow> None
      | Inr self \<Rightarrow> if state self = START_RECORD then Some (fields' self) else None)"

fun split_at :: "char \<Rightarrow> string \<Rightarrow> string \<Rightarrow> string list" where
  "split_at sep cur [] = [cur]"
| "split_at sep cur (c # cs) =
     (if c = sep then cur # split_at sep [] cs else split_at sep (cur @ [c]) cs)"

definition comma_fields :: "string \<Rightarrow> string list" where
  "comma_fields line = (if line = [] then [] else split_at (CHR '','') [] line)"

text \<open>
  A line leaves a quoted field open when the reader, having read it on its own, is
  inside a quoted field. \<open>join_lines\<close> puts such a line and the next one together, with
  nothing between them; \<open>rows_of\<close> reads each line on its own, and what a last line
  with an open quoted field holds is a row.
\<close>

definition open_line :: "string \<Rightarrow> bool" where
  "open_line line =
     (case parse_line parse_reset line of
        Inl e \<Rightarrow> False
      | Inr self \<Rightarrow> state self = IN_QUOTED_FIELD)"

fun join_lines :: "string list \<Rightarrow> string list" where
  "join_lines [] = []"
| "join_lines [line] = [line]"
| "join_lines (line # next_line # lines) =
     (if open_line line then join_lines ((line @ next_line) # lines)
      else line # join_lines (next_line # lines))"

definition line_row :: "string \<Rightarrow> csv_error + string list" where
  "line_row line =
     (case parse_line parse_reset line of
        Inl e \<Rightarrow> Inl e
      | Inr self \<Rightarrow>
          Inr (if state self = START_RECORD then fields' self else fields' self @ [field self]))"

fun rows_of :: "string list \<Rightarrow> csv_error + string list list" where
  "rows_of [] = Inr []"
| "rows_of (line # lines) =
     (case line_row line of
        Inl e \<Rightarrow> Inl e
      | Inr row \<Rightarrow>
          (case rows_of lines of
             Inl e \<Rightarrow> Inl e
           | Inr rows \<Rightarrow> Inr (row # rows)))"

section \<open>Sample records\<close>

definition sample_entry :: "string \<Rightarrow> string \<Rightarrow> string \<Rightarrow> log_entry" where
  "sample_entry p t a = \<lparr>path = p, datetime = t, browser = a, status = ''200'', size' = ''0''\<rparr>"

definition tie_data :: "log_entry list" where
  "tie_data = [sample_entry ''/a'' ''x'' ''Safari/1'', sample_entry ''/b'' ''x'' ''Chrome/1'',
               sample_entry ''/c'' ''x'' ''Chrome/2'', sample_entry ''/d'' ''x'' ''Safari/2'']"

definition image_data :: "log_entry list" where
  "image_data = [sample_entry ''foo.JPG'' ''x'' ''a'', sample_entry ''foo.jpgx'' ''x'' ''a'',
                 sample_entry ''foo.jpg?x=1'' ''x'' ''a'']"


definition eleven_of_twenty :: "log_entry list" where
  "eleven_of_twenty = replicate 11 (sample_entry ''/a.png'' ''x'' ''a'')
                      @ replicate 9 (sample_entry ''/b'' ''x'' ''a'')"

definition hour_data :: "log_entry list" where
  "hour_data = [sample_entry ''/a'' ''01/01/2020 11:00:00'' ''a'',
                sample_entry ''/b'' ''01/01/2020 10:15:00'' ''a'',
                sample_entry ''/c.png'' ''notadate'' ''Firefox/3'',
                sample_entry ''/d'' ''01/01/2020 09:30:00'' ''a'',
                sample_entry ''/e'' ''01/01/2020 10:15:00'' ''a'']"

text \<open>Texts for \<open>process_csv\<close>.\<close>

definition csv_text :: string where
  "csv_text = ''/x.png , t,\"F/3, x\",200,12,extra'' @ [newline] @ ''f,g,h,i''"

definition open_quote_text :: string where
  "open_quote_text = ''a,b,c,d,\"e'' @ [newline] @ ''f,g,h,i,j''"

definition plain_text :: string where
  "plain_text = ''/a.gif, t ,ua,200,1'' @ [newline] @ [newline] @ ''x,y''"

definition long_field :: string where
  "long_field = replicate (Suc field_limit) (CHR ''a'')"

definition joined_text :: string where
  "joined_text = ''/p,\"t'' @ [newline] @ ''u'' @ [newline] @ ''v\",b,s,z'' @ [newline] @ ''x,y,\"w''"

section \<open>Matching\<close>

lemma star_iter_nonempty: "star_iter f n s \<noteq> []"
  by (cases n) auto

lemma rmatch_rplus_Digit: "rmatch (rplus Digit) s \<noteq> [] \<longleftrightarrow> (\<exists>d t. s = d # t \<and> is_digit d)"
  by (cases s) (auto simp: rplus_def star_iter_nonempty)

lemma rmatch_Seq_nonempty:
  "rmatch (Seq a b) s \<noteq> [] \<longleftrightarrow> (\<exists>t \<in> set (rmatch a s). rmatch b t \<noteq> [])"
  by auto

lemma re_match_token:
  "re_match (Seq (Str name) (rplus Digit)) s \<longleftrightarrow>
     (\<exists>w d post. s = w @ d # post \<and> map lower w = map lower name \<and> is_digit d)"
proof
  assume "re_match (Seq (Str name) (rplus Digit)) s"
  then have *: "length name \<le> length s" "map lower (take (length name) s) = map lower name"
    and "rmatch (rplus Digit) (drop (length name) s) \<noteq> []"
    unfolding re_match_def rmatch_Seq_nonempty by (auto split: if_splits)
  then obtain d t where "drop (length name) s = d # t" "is_digit d"
    unfolding rmatch_rplus_Digit by blast
  then have "s = take (length name) s @ d # t"
    by (metis append_take_drop_id)
  with * \<open>is_digit d\<close>
  show "\<exists>w d post. s = w @ d # post \<and> map lower w = map lower name \<and> is_digit d"
    by blast
next
  assume "\<exists>w d post. s = w @ d # post \<and> map lower w = map lower name \<and> is_digit d"
  then obtain w d post
    where s: "s = w @ d # post" and w: "map lower w = map lower name" and d: "is_digit d"
    by blast
  from w have len: "length w = length name" by (metis length_map)
  have "rmatch (rplus Digit) (d # post) \<noteq> []"
    unfolding rmatch_rplus_Digit using d by blast
  then show "re_match (Seq (Str name) (rplus Digit)) s"
    unfolding re_match_def rmatch_Seq_nonempty using s w len by simp
qed

lemma re_search_iff: "re_search r s \<longleftrightarrow> (\<exists>pre t. s = pre @ t \<and> re_match r t)"
proof (induction s)
  case Nil
  then show ?case by simp
next
  case (Cons c cs)
  show ?case
  proof
    assume "re_search r (c # cs)"
    then consider "re_match r (c # cs)" | "re_search r cs" by auto
    then show "\<exists>pre t. c # cs = pre @ t \<and> re_match r t"
    proof cases
      case 1
      then show ?thesis by (metis append_Nil)
    next
      case 2
      with Cons obtain pre t where "cs = pre @ t" "re_match r t" by blast
      then show ?thesis by (metis append_Cons)
    qed
  next
    assume "\<exists>pre t. c # cs = pre @ t \<and> re_match r t"
    then obtain pre t where pt: "c # cs = pre @ t" "re_match r t" by blast
    show "re_search r (c # cs)"
    proof (cases pre)
      case Nil
      with pt show ?thesis by (metis append_Nil re_search.simps(2))
    next
      case pre: (Cons p ps)
      with pt have "cs = ps @ t" by simp
      with pt Cons.IH show ?thesis by auto
    qed
  qed
qed

lemma re_search_token: "re_search (Seq (Str name) (rplus Digit)) s \<longleftrightarrow> has_token name s"
  unfolding re_search_iff re_match_token has_token_def by blast

lemma re_match_Alt: "re_match (Alt a b) s \<longleftrightarrow> re_match a s \<or> re_match b s"
  by (simp add: re_match_def)

lemma re_search_Alt: "re_search (Alt a b) s \<longleftrightarrow> re_search a s \<or> re_search b s"
  unfolding re_search_iff re_match_Alt by blast

lemma search_firefox: "re_search firefox_regex s \<longleftrightarrow> has_token ''Firefox/'' s"
  unfolding firefox_regex_def by (rule re_search_token)

lemma search_chrome: "re_search chrome_regex s \<longleftrightarrow> has_token ''Chrome/'' s"
  unfolding chrome_regex_def by (rule re_search_token)

lemma search_safari: "re_search safari_regex s \<longleftrightarrow> has_token ''Safari/'' s"
  unfolding safari_regex_def by (rule re_search_token)

lemma search_ie: "re_search ie_regex s \<longleftrightarrow> has_token ''MSIE '' s \<or> has_token ''Trident/'' s"
  unfolding ie_regex_def re_search_Alt re_search_token ..

section \<open>The classification of an agent string\<close>

text \<open>
  C1. The key of an agent string is decided by the first test that succeeds, in the
  order Firefox token, Chrome token, Internet Explorer token (\<open>MSIE <digits>\<close> or
  \<open>Trident/<digits>\<close>), Safari token without a Chrome token, and \<open>Other\<close> when none
  does. So an agent string with a Chrome token and a Safari token is never counted as
  Safari: it is counted as Chrome, unless the Firefox test, which comes first, succeeds.
\<close>

theorem browser_key_precedence:
  "browser_key s =
     (if has_token ''Firefox/'' s then ''Firefox''
      else if has_token ''Chrome/'' s then ''Chrome''
      else if has_token ''MSIE '' s \<or> has_token ''Trident/'' s then ''Internet Explorer''
      else if has_token ''Safari/'' s \<and> \<not> has_token ''Chrome/'' s then ''Safari''
      else ''Other'')
   \<and> (has_token ''Chrome/'' s \<and> has_token ''Safari/'' s \<longrightarrow>
        browser_key s \<noteq> ''Safari''
        \<and> (\<not> has_token ''Firefox/'' s \<longrightarrow> browser_key s = ''Chrome''))"
  by (simp add: browser_key_def search_firefox search_chrome search_safari search_ie)

theorem browser_key_precedence_witness:
  "has_token ''Chrome/'' ''Chrome/100 Safari/537''
   \<and> has_token ''Safari/'' ''Chrome/100 Safari/537''
   \<and> \<not> has_token ''Firefox/'' ''Chrome/100 Safari/537''
   \<and> browser_key ''Chrome/100 Safari/537'' = ''Chrome''"
proof -
  have c: "has_token ''Chrome/'' ''Chrome/100 Safari/537''"
    unfolding search_chrome [symmetric] by code_simp
  have s: "has_token ''Safari/'' ''Chrome/100 Safari/537''"
    unfolding search_safari [symmetric] by code_simp
  have f: "\<not> has_token ''Firefox/'' ''Chrome/100 Safari/537''"
    unfolding search_firefox [symmetric] by code_simp
  from browser_key_precedence [of "''Chrome/100 Safari/537''"] c s f
  show ?thesis by blast
qed

text \<open>
  C9. The chain with the check for Chrome inside the Safari test and the chain without
  it give the same key for every agent string.
\<close>

theorem browser_key_flat_eq: "browser_key user_agent = browser_key_flat user_agent"
  by (simp add: browser_key_def browser_key_flat_def)

section \<open>Counters\<close>

lemma map_of_counter_incr:
  "map_of (counter_incr k c) = (map_of c)(k \<mapsto> (case map_of c k of None \<Rightarrow> 1 | Some n \<Rightarrow> n + 1))"
  by (induction c) (auto simp: fun_eq_iff)

lemma keys_counter_incr:
  "map fst (counter_incr k c) = (if k \<in> set (map fst c) then map fst c else map fst c @ [k])"
proof (induction c)
  case Nil
  show ?case by simp
next
  case (Cons a c)
  obtain k' n where a: "a = (k', n)" by (cases a)
  show ?case
  proof (cases "k = k'")
    case True
    with a show ?thesis by simp
  next
    case False
    with a Cons show ?thesis by simp
  qed
qed

lemma sum_counter_incr: "sum_list (map snd (counter_incr k c)) = sum_list (map snd c) + 1"
  by (induction c) auto

lemma counter_get_incr:
  "counter_get (counter_incr k c) k' = counter_get c k' + (if k' = k then 1 else 0)"
  by (simp add: counter_get_def map_of_counter_incr split: option.splits)

lemma first_hit_snoc_mem: "k \<in> set ks \<Longrightarrow> first_hit k (ks @ [x]) = first_hit k ks"
  by (simp add: first_hit_def takeWhile_append1)

lemma first_hit_less: "k \<in> set ks \<Longrightarrow> first_hit k ks < length ks"
  unfolding first_hit_def by (induction ks) auto

lemma first_hit_snoc_new: "x \<notin> set ks \<Longrightarrow> first_hit x (ks @ [x]) = length ks"
  by (induction ks) (auto simp: first_hit_def)

lemma tally_props:
  "distinct (map fst (fold counter_incr ks []))
   \<and> set (map fst (fold counter_incr ks [])) = set ks
   \<and> sorted_wrt (<) (map (\<lambda>k. first_hit k ks) (map fst (fold counter_incr ks [])))
   \<and> (\<forall>k. counter_get (fold counter_incr ks []) k = int (count_list ks k))
   \<and> sum_list (map snd (fold counter_incr ks [])) = int (length ks)"
proof (induction ks rule: rev_induct)
  case Nil
  show ?case by (simp add: counter_get_def)
next
  case (snoc x ks)
  define c where "c = fold counter_incr ks []"
  define K where "K = map fst c"
  have step: "fold counter_incr (ks @ [x]) [] = counter_incr x c" by (simp add: c_def)
  from snoc have d: "distinct K" and s: "set K = set ks"
    and o: "sorted_wrt (<) (map (\<lambda>k. first_hit k ks) K)"
    and g: "\<And>k. counter_get c k = int (count_list ks k)"
    and t: "sum_list (map snd c) = int (length ks)"
    unfolding c_def K_def by blast+
  have K': "map fst (counter_incr x c) = (if x \<in> set ks then K else K @ [x])"
    unfolding keys_counter_incr K_def [symmetric] s ..
  have same: "map (\<lambda>k. first_hit k (ks @ [x])) K = map (\<lambda>k. first_hit k ks) K"
  proof (rule map_cong[OF refl])
    fix k assume "k \<in> set K"
    then have "k \<in> set ks" by (simp only: s)
    then show "first_hit k (ks @ [x]) = first_hit k ks" by (rule first_hit_snoc_mem)
  qed
  have 1: "distinct (map fst (counter_incr x c))"
    unfolding K' using d s by simp
  have 2: "set (map fst (counter_incr x c)) = set (ks @ [x])"
    unfolding K' using s by auto
  have 3: "sorted_wrt (<) (map (\<lambda>k. first_hit k (ks @ [x])) (map fst (counter_incr x c)))"
  proof (cases "x \<in> set ks")
    case True
    with o show ?thesis unfolding K' by (simp only: if_True same)
  next
    case False
    have "\<forall>k \<in> set K. first_hit k ks < length ks"
    proof
      fix k assume "k \<in> set K"
      then have "k \<in> set ks" by (simp only: s)
      then show "first_hit k ks < length ks" by (rule first_hit_less)
    qed
    then have "\<forall>n \<in> set (map (\<lambda>k. first_hit k ks) K). n < first_hit x (ks @ [x])"
      using False by (simp add: first_hit_snoc_new)
    then have "sorted_wrt (<) (map (\<lambda>k. first_hit k ks) K @ [first_hit x (ks @ [x])])"
      using o unfolding sorted_wrt_append by simp
    with False show ?thesis unfolding K' by (simp only: if_False map_append list.map same)
  qed
  have 4: "\<forall>k. counter_get (counter_incr x c) k = int (count_list (ks @ [x]) k)"
    by (simp add: counter_get_incr g)
  have 5: "sum_list (map snd (counter_incr x c)) = int (length (ks @ [x]))"
    by (simp add: sum_counter_incr t)
  show ?case unfolding step by (intro conjI 1 2 3 4 5)
qed

lemma max_by_count_first:
  "\<exists>pre post. b # xs = pre @ max_by_count b xs # post
     \<and> (\<forall>y \<in> set pre. snd y < snd (max_by_count b xs))
     \<and> (\<forall>y \<in> set post. snd y \<le> snd (max_by_count b xs))"
proof (induction xs arbitrary: b)
  case Nil
  show ?case by (rule exI[of _ "[]"]) simp
next
  case (Cons x xs)
  show ?case
  proof (cases "snd b < snd x")
    case True
    define r where "r = max_by_count x xs"
    from Cons[of x] obtain pre post where p: "x # xs = pre @ r # post"
      "\<forall>y \<in> set pre. snd y < snd r" "\<forall>y \<in> set post. snd y \<le> snd r"
      unfolding r_def by blast
    have "snd x \<le> snd r" using p by (cases pre) auto
    with True have "snd b < snd r" by simp
    with p have "b # x # xs = (b # pre) @ r # post \<and> (\<forall>y \<in> set (b # pre). snd y < snd r)
       \<and> (\<forall>y \<in> set post. snd y \<le> snd r)" by simp
    moreover have "max_by_count b (x # xs) = r" using True by (simp add: r_def)
    ultimately show ?thesis by blast
  next
    case False
    define r where "r = max_by_count b xs"
    from Cons[of b] obtain pre post where p: "b # xs = pre @ r # post"
      "\<forall>y \<in> set pre. snd y < snd r" "\<forall>y \<in> set post. snd y \<le> snd r"
      unfolding r_def by blast
    have r: "max_by_count b (x # xs) = r" using False by (simp add: r_def)
    show ?thesis
    proof (cases pre)
      case Nil
      with p have br: "b = r" and xs: "xs = post" by simp_all
      from False br have "snd x \<le> snd r" by simp
      with p xs br have "b # x # xs = [] @ r # (x # post) \<and> (\<forall>y \<in> set []. snd y < snd r)
         \<and> (\<forall>y \<in> set (x # post). snd y \<le> snd r)" by simp
      then show ?thesis unfolding r by blast
    next
      case pre: (Cons b' pre')
      with p have b': "b' = b" and xs: "xs = pre' @ r # post" by simp_all
      from p pre b' have "snd b < snd r" by simp
      with False have "snd x < snd r" by simp
      with p pre b' xs have "b # x # xs = (b # x # pre') @ r # post
         \<and> (\<forall>y \<in> set (b # x # pre'). snd y < snd r)
         \<and> (\<forall>y \<in> set post. snd y \<le> snd r)" by simp
      then show ?thesis unfolding r by blast
    qed
  qed
qed

lemma count_browsers_fold: "count_browsers bc data = fold counter_incr (keys_of data) bc"
  by (induction data arbitrary: bc) (simp_all add: keys_of_def)

lemma tally_entry:
  assumes "(k, m) \<in> set (fold counter_incr ks [])"
  shows "m = int (count_list ks k)" and "k \<in> set ks" and "1 \<le> m"
proof -
  define c where "c = fold counter_incr ks []"
  from tally_props[of ks] have d: "distinct (map fst c)" and s: "set (map fst c) = set ks"
    and g: "\<And>k. counter_get c k = int (count_list ks k)"
    unfolding c_def by blast+
  from assms have km: "(k, m) \<in> set c" by (simp add: c_def)
  with d have "map_of c k = Some m" by simp
  then have "counter_get c k = m" by (simp add: counter_get_def)
  with g show m: "m = int (count_list ks k)" by simp
  from km have "k \<in> set (map fst c)" by force
  then show k: "k \<in> set ks" by (simp only: s)
  then have "0 < count_list ks k" using count_list_0_iff[of ks k] by auto
  with m show "1 \<le> m" by simp
qed

section \<open>The most popular browser\<close>

lemma fmpb_empty: "find_most_popular_browser [] = (''None'', 0)"
  by (simp add: find_most_popular_browser_def)

lemma fmpb_nonempty:
  assumes "data \<noteq> []" and r: "find_most_popular_browser data = (label, n)"
  shows "label \<in> set (keys_of data)"
    and "n = int (count_list (keys_of data) label)"
    and "\<And>k. int (count_list (keys_of data) k) \<le> n"
    and "\<And>k. k \<noteq> label \<Longrightarrow> int (count_list (keys_of data) k) = n
           \<Longrightarrow> first_hit label (keys_of data) < first_hit k (keys_of data)"
proof -
  define ks where "ks = keys_of data"
  define c where "c = fold counter_incr ks []"
  have ks: "ks \<noteq> []" using assms(1) by (simp add: ks_def keys_of_def)
  have cb: "count_browsers [] data = c" by (simp add: count_browsers_fold c_def ks_def)
  from tally_props[of ks] have d: "distinct (map fst c)" and s: "set (map fst c) = set ks"
    and o: "sorted_wrt (<) (map (\<lambda>k. first_hit k ks) (map fst c))"
    and g: "\<And>k. counter_get c k = int (count_list ks k)"
    unfolding c_def by blast+
  from s ks have "c \<noteq> []" by auto
  then obtain b xs where c: "c = b # xs" by (cases c) auto
  have res: "max_by_count b xs = (label, n)"
    using r unfolding find_most_popular_browser_def cb c by simp
  from max_by_count_first[of b xs] obtain pre post where p: "c = pre @ (label, n) # post"
    "\<forall>y \<in> set pre. snd y < n" "\<forall>y \<in> set post. snd y \<le> n"
    unfolding res c by auto
  have look: "\<And>k m. (k, m) \<in> set c \<Longrightarrow> m = int (count_list ks k)"
  proof -
    fix k m assume "(k, m) \<in> set c"
    with d have "map_of c k = Some m" by simp
    then have "counter_get c k = m" by (simp add: counter_get_def)
    with g show "m = int (count_list ks k)" by simp
  qed
  have mem: "(label, n) \<in> set c" using p by simp
  then have "label \<in> set (map fst c)" by force
  then show "label \<in> set (keys_of data)" unfolding s ks_def .
  from look[OF mem] show "n = int (count_list (keys_of data) label)" unfolding ks_def .
  show le: "\<And>k. int (count_list (keys_of data) k) \<le> n"
  proof -
    fix k
    show "int (count_list (keys_of data) k) \<le> n"
    proof (cases "k \<in> set ks")
      case False
      then have "count_list ks k = 0" using count_list_0_iff[of ks k] by auto
      moreover have "0 \<le> n" using look[OF mem] by simp
      ultimately show ?thesis by (simp add: ks_def)
    next
      case True
      then have "k \<in> set (map fst c)" by (simp only: s)
      then obtain m where km: "(k, m) \<in> set c" by auto
      then have "m \<le> n" using p by auto
      with look[OF km] show ?thesis by (simp add: ks_def)
    qed
  qed
  show "\<And>k. k \<noteq> label \<Longrightarrow> int (count_list (keys_of data) k) = n
           \<Longrightarrow> first_hit label (keys_of data) < first_hit k (keys_of data)"
  proof -
    fix k assume kl: "k \<noteq> label" and kn: "int (count_list (keys_of data) k) = n"
    have "label \<in> set ks" using \<open>label \<in> set (keys_of data)\<close> by (simp add: ks_def)
    then have "0 < count_list ks label" using count_list_0_iff[of ks label] by auto
    with look[OF mem] have "0 < n" by simp
    with kn have "k \<in> set ks" unfolding ks_def using count_list_0_iff[of "keys_of data" k] by auto
    then have "k \<in> set (map fst c)" by (simp only: s)
    then obtain m where km: "(k, m) \<in> set c" by auto
    with look kn have "m = n" by (simp add: ks_def)
    with km p kl have "(k, n) \<in> set post" by auto
    then have "k \<in> set (map fst post)" by force
    moreover from o have "sorted_wrt (<) (map (\<lambda>k. first_hit k ks) (map fst pre) @ first_hit label ks # map (\<lambda>k. first_hit k ks) (map fst post))"
      unfolding p(1) by simp
    ultimately show "first_hit label (keys_of data) < first_hit k (keys_of data)"
      unfolding ks_def [symmetric] sorted_wrt_append by auto
  qed
qed

lemma browser_key_cases:
  "browser_key s \<in> {''Firefox'', ''Chrome'', ''Internet Explorer'', ''Safari'', ''Other''}"
  by (simp add: browser_key_def)

text \<open>
  C3. \<open>find_most_popular_browser\<close> returns \<open>(''None'', 0)\<close> for the empty list. For any
  other list it returns a key that occurs, with the number of records of that key; no
  key has more records; and every other key with as many records has its first record
  later in the list than the returned key has.
\<close>

theorem most_popular_browser:
  "find_most_popular_browser [] = (''None'', 0)
   \<and> (data \<noteq> [] \<longrightarrow>
        (case find_most_popular_browser data of (label, n) \<Rightarrow>
           label \<in> set (keys_of data)
           \<and> n = int (count_list (keys_of data) label)
           \<and> (\<forall>k. int (count_list (keys_of data) k) \<le> n)
           \<and> (\<forall>k. k \<noteq> label \<and> int (count_list (keys_of data) k) = n \<longrightarrow>
                  first_hit label (keys_of data) < first_hit k (keys_of data))))"
proof (intro conjI impI)
  show "find_most_popular_browser [] = (''None'', 0)" by (rule fmpb_empty)
next
  assume ne: "data \<noteq> []"
  obtain label n where r: "find_most_popular_browser data = (label, n)"
    by (cases "find_most_popular_browser data")
  from fmpb_nonempty[OF ne r]
  have "label \<in> set (keys_of data)"
    and "n = int (count_list (keys_of data) label)"
    and "\<forall>k. int (count_list (keys_of data) k) \<le> n"
    and "\<forall>k. k \<noteq> label \<and> int (count_list (keys_of data) k) = n \<longrightarrow>
           first_hit label (keys_of data) < first_hit k (keys_of data)"
    by blast+
  then show "case find_most_popular_browser data of (label, n) \<Rightarrow>
           label \<in> set (keys_of data)
           \<and> n = int (count_list (keys_of data) label)
           \<and> (\<forall>k. int (count_list (keys_of data) k) \<le> n)
           \<and> (\<forall>k. k \<noteq> label \<and> int (count_list (keys_of data) k) = n \<longrightarrow>
                  first_hit label (keys_of data) < first_hit k (keys_of data))"
    unfolding r by simp
qed

theorem most_popular_browser_witness:
  "tie_data \<noteq> []
   \<and> find_most_popular_browser tie_data = (''Safari'', 2)
   \<and> int (count_list (keys_of tie_data) ''Chrome'') = 2
   \<and> first_hit ''Safari'' (keys_of tie_data) < first_hit ''Chrome'' (keys_of tie_data)"
proof -
  have ne: "tie_data \<noteq> []" by (simp add: tie_data_def)
  have r: "find_most_popular_browser tie_data = (''Safari'', 2)" by code_simp
  have c: "int (count_list (keys_of tie_data) ''Chrome'') = 2" by code_simp
  have d: "''Chrome'' \<noteq> ''Safari''" by simp
  from mp[OF conjunct2[OF most_popular_browser[of tie_data]] ne]
  have "\<forall>k. k \<noteq> ''Safari'' \<and> int (count_list (keys_of tie_data) k) = 2 \<longrightarrow>
           first_hit ''Safari'' (keys_of tie_data) < first_hit k (keys_of tie_data)"
    unfolding r by simp
  then have "''Chrome'' \<noteq> ''Safari'' \<and> int (count_list (keys_of tie_data) ''Chrome'') = 2 \<longrightarrow>
           first_hit ''Safari'' (keys_of tie_data) < first_hit ''Chrome'' (keys_of tie_data)"
    by (rule spec)
  then have fh: "first_hit ''Safari'' (keys_of tie_data) < first_hit ''Chrome'' (keys_of tie_data)"
    by (rule mp) (rule conjI[OF d c])
  show ?thesis by (intro conjI ne r c fh)
qed

text \<open>
  C10. Each record increments the count of exactly one key, which is one of the five
  keys of the chain: the counts add up to the number of records, and one more record
  adds 1 to the count of its key and nothing to the others. So for a list that is not
  empty the returned key is not \<open>None\<close>, and its count is at least 1 and at most the
  number of records.
\<close>

theorem one_bucket_per_record:
  "sum_list (map snd (count_browsers [] data)) = int (length data)
   \<and> set (map fst (count_browsers [] data))
        \<subseteq> {''Firefox'', ''Chrome'', ''Internet Explorer'', ''Safari'', ''Other''}
   \<and> (\<forall>k. counter_get (count_browsers [] (data @ [entry])) k
           = counter_get (count_browsers [] data) k
             + (if k = browser_key (browser entry) then 1 else 0))
   \<and> (data \<noteq> [] \<longrightarrow>
        fst (find_most_popular_browser data) \<noteq> ''None''
        \<and> 1 \<le> snd (find_most_popular_browser data)
        \<and> snd (find_most_popular_browser data) \<le> int (length data))"
proof (intro conjI allI impI)
  define ks where "ks = keys_of data"
  have len: "length ks = length data" by (simp add: ks_def keys_of_def)
  have five: "set ks \<subseteq> {''Firefox'', ''Chrome'', ''Internet Explorer'', ''Safari'', ''Other''}"
    unfolding ks_def keys_of_def using browser_key_cases by auto
  from tally_props[of ks]
  have s: "set (map fst (fold counter_incr ks [])) = set ks"
    and t: "sum_list (map snd (fold counter_incr ks [])) = int (length ks)" by blast+
  show "sum_list (map snd (count_browsers [] data)) = int (length data)"
    unfolding count_browsers_fold ks_def [symmetric] t len ..
  show "set (map fst (count_browsers [] data))
        \<subseteq> {''Firefox'', ''Chrome'', ''Internet Explorer'', ''Safari'', ''Other''}"
    unfolding count_browsers_fold ks_def [symmetric] s by (rule five)
  show "counter_get (count_browsers [] (data @ [entry])) k
           = counter_get (count_browsers [] data) k
             + (if k = browser_key (browser entry) then 1 else 0)" for k
    by (simp add: count_browsers_fold keys_of_def counter_get_incr)
  assume ne: "data \<noteq> []"
  obtain label n where r: "find_most_popular_browser data = (label, n)"
    by (cases "find_most_popular_browser data")
  from fmpb_nonempty(1,2)[OF ne r] have l: "label \<in> set ks" and n: "n = int (count_list ks label)"
    by (simp_all add: ks_def)
  from l five have "label \<noteq> ''None''" by auto
  then show "fst (find_most_popular_browser data) \<noteq> ''None''" by (simp add: r)
  from l have "0 < count_list ks label" using count_list_0_iff[of ks label] by auto
  with n show "1 \<le> snd (find_most_popular_browser data)" by (simp add: r)
  have "count_list ks label \<le> length ks" by (rule count_le_length)
  with n len show "snd (find_most_popular_browser data) \<le> int (length data)" by (simp add: r)
qed

theorem one_bucket_per_record_witness:
  "[sample_entry ''/a'' ''x'' ''Firefox/3''] \<noteq> []
   \<and> fst (find_most_popular_browser [sample_entry ''/a'' ''x'' ''Firefox/3'']) \<noteq> ''None''
   \<and> 1 \<le> snd (find_most_popular_browser [sample_entry ''/a'' ''x'' ''Firefox/3''])
   \<and> snd (find_most_popular_browser [sample_entry ''/a'' ''x'' ''Firefox/3'']) \<le> 1"
proof -
  define d0 where "d0 = [sample_entry ''/a'' ''x'' ''Firefox/3'']"
  have ne: "d0 \<noteq> []" by (simp add: d0_def)
  have len: "int (length d0) = 1" by (simp add: d0_def)
  note t = one_bucket_per_record[of d0 "sample_entry ''/a'' ''x'' ''Firefox/3''"]
  from mp[OF conjunct2[OF conjunct2[OF conjunct2[OF t]]] ne]
  have "fst (find_most_popular_browser d0) \<noteq> ''None''
        \<and> 1 \<le> snd (find_most_popular_browser d0)
        \<and> snd (find_most_popular_browser d0) \<le> 1"
    unfolding len .
  with ne show ?thesis unfolding d0_def by (intro conjI) (elim conjE, assumption)+
qed

section \<open>Image paths\<close>

lemma star_iter_one_char_set:
  "length s \<le> n \<Longrightarrow>
   set (star_iter (one_char P) n s) = {drop k s |k. k \<le> length (takeWhile P s)}"
proof (induction n arbitrary: s)
  case 0
  then show ?case by simp
next
  case (Suc n)
  show ?case
  proof (cases s)
    case Nil
    then show ?thesis by simp
  next
    case (Cons x t)
    show ?thesis
    proof (cases "P x")
      case False
      with Cons show ?thesis by simp
    next
      case True
      from Suc.prems Cons have "length t \<le> n" by simp
      from Suc.IH[OF this]
      have ih: "set (star_iter (one_char P) n t) = {drop k t |k. k \<le> length (takeWhile P t)}" .
      have "set (star_iter (one_char P) (Suc n) s) = insert s (set (star_iter (one_char P) n t))"
        using Cons True by simp
      also have "\<dots> = {drop k s |k. k \<le> length (takeWhile P s)}"
      proof (intro set_eqI iffI)
        fix u assume "u \<in> insert s (set (star_iter (one_char P) n t))"
        then consider "u = s" | k where "u = drop k t" "k \<le> length (takeWhile P t)"
          using ih by auto
        then show "u \<in> {drop k s |k. k \<le> length (takeWhile P s)}"
        proof cases
          case 1
          then show ?thesis by (auto intro: exI[of _ 0])
        next
          case 2
          then show ?thesis using Cons True by (auto intro!: exI[of _ "Suc k"])
        qed
      next
        fix u assume "u \<in> {drop k s |k. k \<le> length (takeWhile P s)}"
        then obtain k where k: "u = drop k s" "k \<le> length (takeWhile P s)" by auto
        show "u \<in> insert s (set (star_iter (one_char P) n t))"
        proof (cases k)
          case 0
          with k show ?thesis by simp
        next
          case (Suc j)
          with k Cons True have "u = drop j t" "j \<le> length (takeWhile P t)" by auto
          with ih show ?thesis by auto
        qed
      qed
      finally show ?thesis .
    qed
  qed
qed













lemma take_takeWhile:
  assumes "k \<le> length (takeWhile P p)"
  shows "\<forall>x \<in> set (take k p). P x"
proof -
  have "take k (takeWhile P p @ dropWhile P p) = take k (takeWhile P p)"
    using assms by (simp only: take_append) simp
  then have "take k p = take k (takeWhile P p)"
    by (simp only: takeWhile_dropWhile_id)
  then have "set (take k p) \<subseteq> set (takeWhile P p)" by (simp add: set_take_subset)
  then show ?thesis by (auto dest: set_takeWhileD)
qed





lemma count_images_filter:
  "count_images n data = n + int (length (filter (\<lambda>entry. re_match image_regex (path entry)) data))"
  by (induction data arbitrary: n) simp_all


section \<open>Rounding to the nearest double\<close>

lemma bit_length_bounds:
  "0 < n \<Longrightarrow> 2 ^ (bit_length n - 1) \<le> n \<and> n < 2 ^ bit_length n"
proof (induction n rule: bit_length.induct)
  case (1 n)
  show ?case
  proof (cases "n div 2 = 0")
    case True
    with 1(2) have "n = 1" by (auto simp: div_eq_0_iff)
    then show ?thesis by (simp add: bit_length.simps)
  next
    case False
    from 1(2) have n: "n \<noteq> 0" by simp
    from False have "0 < n div 2" by simp
    from 1(1)[OF n this] have ih: "2 ^ (bit_length (n div 2) - 1) \<le> n div 2"
      "n div 2 < 2 ^ bit_length (n div 2)" by simp_all
    from False have pos: "0 < bit_length (n div 2)" by (simp add: bit_length.simps[of "n div 2"])
    have eq: "bit_length n = Suc (bit_length (n div 2))" using n by (simp add: bit_length.simps[of n])
    have "2 ^ (bit_length n - 1) = 2 * 2 ^ (bit_length (n div 2) - 1)"
      unfolding eq using pos by (cases "bit_length (n div 2)") simp_all
    also have "\<dots> \<le> 2 * (n div 2)" using ih(1) by simp
    also have "\<dots> \<le> n" by simp
    finally have lo: "2 ^ (bit_length n - 1) \<le> n" .
    have "n < 2 * (n div 2) + 2" by presburger
    also have "\<dots> \<le> 2 * 2 ^ bit_length (n div 2)" using ih(2) by simp
    finally have "n < 2 ^ bit_length n" unfolding eq by simp
    with lo show ?thesis ..
  qed
qed

lemma exponent_le:
  assumes "0 < x"
  shows "2 powi exponent x \<le> x"
proof (cases "1 \<le> x")
  case True
  define m where "m = nat \<lfloor>x\<rfloor>"
  from True have m: "0 < m" by (simp add: m_def)
  from bit_length_bounds[OF m] have "2 ^ (bit_length m - 1) \<le> m" by simp
  then have "(of_nat (2 ^ (bit_length m - 1)) :: rat) \<le> of_nat m"
    by (simp only: of_nat_le_iff)
  then have "(2::rat) ^ (bit_length m - 1) \<le> of_nat m" by simp
  also have "\<dots> \<le> x" using True by (simp add: m_def)
  finally have a: "(2::rat) ^ (bit_length m - 1) \<le> x" .
  from m have "0 < bit_length m" by (simp add: bit_length.simps[of m])
  then have n: "nat (int (bit_length m) - 1) = bit_length m - 1" "0 \<le> int (bit_length m) - 1"
    by simp_all
  have "exponent x = int (bit_length m) - 1" using True by (simp add: exponent_def m_def)
  then have "(2::rat) powi exponent x = 2 ^ (bit_length m - 1)"
    by (simp only: power_int_def n if_True)
  with a show ?thesis by simp
next
  case False
  define m where "m = nat \<lfloor>1 / x\<rfloor>"
  define k where "k = int (bit_length m) - 1"
  from False assms have one: "1 \<le> 1 / x" by simp
  then have m: "0 < m" by (simp add: m_def)
  have e: "exponent x = (if 2 powi (- k) \<le> x then - k else - k - 1)"
    using False by (simp add: exponent_def Let_def m_def k_def)
  show ?thesis
  proof (cases "2 powi (- k) \<le> x")
    case True
    with e show ?thesis by simp
  next
    case nle: False
    from bit_length_bounds[OF m] have "m + 1 \<le> 2 ^ bit_length m" by simp
    then have "(of_nat (m + 1) :: rat) \<le> of_nat (2 ^ bit_length m)"
      by (simp only: of_nat_le_iff)
    then have up: "of_nat (m + 1) \<le> (2::rat) ^ bit_length m" by simp
    have "1 / x < of_int (\<lfloor>1 / x\<rfloor> + 1)" by linarith
    also have "\<lfloor>1 / x\<rfloor> + 1 = int (m + 1)"
    proof -
      from one have "0 \<le> \<lfloor>1 / x\<rfloor>" by (simp only: zero_le_floor)
      then show ?thesis by (simp add: m_def)
    qed
    finally have "1 / x < of_nat (m + 1)" by simp
    with up have "1 / x \<le> (2::rat) ^ bit_length m" by linarith
    then have "1 \<le> 2 ^ bit_length m * x" using assms by (simp add: pos_divide_le_eq)
    then have lo: "1 / 2 ^ bit_length m \<le> x" by (simp add: pos_divide_le_eq mult.commute)
    have "- k - 1 = - int (bit_length m)" by (simp add: k_def)
    then have "(2::rat) powi (- k - 1) = 1 / 2 ^ bit_length m"
      by (simp add: power_int_minus_divide)
    with lo e nle show ?thesis by simp
  qed
qed

lemma exponent_less:
  assumes "0 < x" "x < 2 powi n"
  shows "exponent x < n"
proof (rule ccontr)
  assume "\<not> exponent x < n"
  then have "n \<le> exponent x" by simp
  then have "(2::rat) powi n \<le> 2 powi exponent x" by (rule power_int_increasing) simp
  with exponent_le[OF assms(1)] assms(2) show False by simp
qed

lemma round_half_even_near: "\<bar>of_int (round_half_even z) - z\<bar> \<le> 1 / 2"
  unfolding round_half_even_def Let_def by (auto simp: abs_if) linarith+

lemma round_half_even_le: "z \<le> of_int k \<Longrightarrow> round_half_even z \<le> k"
proof -
  assume z: "z \<le> of_int k"
  show ?thesis
  proof (cases "z = of_int k")
    case True
    then show ?thesis by (simp add: round_half_even_def)
  next
    case False
    with z have "z < of_int k" by simp
    then have "\<lfloor>z\<rfloor> < k" by (simp add: floor_less_iff)
    then have "\<lfloor>z\<rfloor> + 1 \<le> k" by simp
    moreover have "round_half_even z \<le> \<lfloor>z\<rfloor> + 1"
      by (simp add: round_half_even_def Let_def)
    ultimately show ?thesis by simp
  qed
qed

lemma round_half_even_ge: "of_int k \<le> z \<Longrightarrow> k \<le> round_half_even z"
proof -
  assume "of_int k \<le> z"
  then have "k \<le> \<lfloor>z\<rfloor>" by (simp add: le_floor_iff)
  moreover have "\<lfloor>z\<rfloor> \<le> round_half_even z" by (simp add: round_half_even_def Let_def)
  ultimately show ?thesis by simp
qed

lemma ulp_pos: "0 < ulp x"
  by (simp add: ulp_def)

lemma fl_near: "\<bar>fl x - x\<bar> \<le> ulp x / 2"
proof (cases "x = 0")
  case True
  then show ?thesis using ulp_pos[of 0] by (simp add: fl_def)
next
  case False
  have "fl x - x = (of_int (round_half_even (x / ulp x)) - x / ulp x) * ulp x"
    using False ulp_pos[of x] by (simp add: fl_def algebra_simps)
  then have "\<bar>fl x - x\<bar> = \<bar>of_int (round_half_even (x / ulp x)) - x / ulp x\<bar> * \<bar>ulp x\<bar>"
    by (simp only: abs_mult)
  also have "\<dots> = \<bar>of_int (round_half_even (x / ulp x)) - x / ulp x\<bar> * ulp x"
    using ulp_pos[of x] by simp
  also have "\<dots> \<le> 1 / 2 * ulp x"
    by (rule mult_right_mono[OF round_half_even_near]) (simp add: ulp_pos less_imp_le)
  finally show ?thesis by simp
qed

lemma fl_nonneg: "0 \<le> x \<Longrightarrow> 0 \<le> fl x"
proof -
  assume x: "0 \<le> x"
  then have "of_int 0 \<le> x / ulp x" using ulp_pos[of x] by simp
  then have "0 \<le> round_half_even (x / ulp x)" by (rule round_half_even_ge)
  then show ?thesis using ulp_pos[of x] by (simp add: fl_def)
qed

text \<open>An upper bound that is a multiple of the unit in the last place is kept.\<close>

lemma fl_le:
  assumes "0 < x" "x \<le> of_nat N" "of_nat N < (2::rat) powi 53"
  shows "fl x \<le> of_nat N"
proof -
  from assms(2,3) have "x < 2 powi 53" by (rule le_less_trans)
  from exponent_less[OF assms(1) this] have e: "exponent \<bar>x\<bar> - 52 \<le> 0" using assms(1) by simp
  define k where "k = max (exponent \<bar>x\<bar>) (- 1022) - 52"
  from e have k: "k \<le> 0" by (simp add: k_def)
  have u: "ulp x = 2 powi k" by (simp add: ulp_def k_def)
  have inv: "1 / ulp x = of_int (2 ^ nat (- k))"
    using k unfolding u by (simp add: power_int_def power_inverse[symmetric] field_simps)
  have "x / ulp x \<le> of_nat N / ulp x" using assms(2) ulp_pos[of x] by (simp add: divide_right_mono)
  also have "\<dots> = of_nat N * (1 / ulp x)" by simp
  also have "\<dots> = of_int (int N * 2 ^ nat (- k))" by (simp only: inv) simp
  finally have "round_half_even (x / ulp x) \<le> int N * 2 ^ nat (- k)" by (rule round_half_even_le)
  then have "of_int (round_half_even (x / ulp x)) \<le> (of_int (int N * 2 ^ nat (- k)) :: rat)"
    by (simp only: of_int_le_iff)
  then have "of_int (round_half_even (x / ulp x)) * ulp x \<le> of_int (int N * 2 ^ nat (- k)) * ulp x"
    using ulp_pos[of x] by (simp add: mult_right_mono)
  also have "\<dots> = of_nat N" using inv ulp_pos[of x] by (simp add: field_simps)
  finally show ?thesis using assms(1) by (simp add: fl_def)
qed

lemma ulp_le:
  assumes "0 < x" "x < 2 powi n" "- 1022 < n"
  shows "ulp x \<le> 2 powi (n - 53)"
proof -
  from exponent_less[OF assms(1,2)] assms(1) have "exponent \<bar>x\<bar> < n" by simp
  with assms(3) have "max (exponent \<bar>x\<bar>) (- 1022) - 52 \<le> n - 53" by simp
  then show ?thesis unfolding ulp_def by (rule power_int_increasing) simp
qed

lemma fl_unit:
  assumes "0 \<le> x" "x \<le> 1"
  shows "0 \<le> fl x" "fl x \<le> 1" "\<bar>fl x - x\<bar> \<le> 1 / 2 ^ 53"
proof -
  show "0 \<le> fl x" using assms(1) by (rule fl_nonneg)
  show "fl x \<le> 1"
  proof (cases "x = 0")
    case True
    then show ?thesis by (simp add: fl_def)
  next
    case False
    with assms(1) have "0 < x" by simp
    from fl_le[OF this, of 1] assms(2) show ?thesis by simp
  qed
  show "\<bar>fl x - x\<bar> \<le> 1 / 2 ^ 53"
  proof (cases "x = 0")
    case True
    then show ?thesis by (simp add: fl_def)
  next
    case False
    with assms(1) have pos: "0 < x" by simp
    from assms(2) have "x < 2 powi 1" by simp
    from ulp_le[OF pos this] have "ulp x \<le> 2 powi (- 52)" by simp
    also have "\<dots> = 1 / 2 ^ 52" by (simp add: power_int_minus_divide)
    finally have "ulp x / 2 \<le> 1 / 2 ^ 53" by simp
    with fl_near[of x] show ?thesis by simp
  qed
qed

lemma fl_hundred:
  assumes "0 \<le> z" "z \<le> 100"
  shows "0 \<le> fl z" "fl z \<le> 100" "\<bar>fl z - z\<bar> \<le> 1 / 2 ^ 47"
proof -
  show "0 \<le> fl z" using assms(1) by (rule fl_nonneg)
  show "fl z \<le> 100"
  proof (cases "z = 0")
    case True
    then show ?thesis by (simp add: fl_def)
  next
    case False
    with assms(1) have "0 < z" by simp
    from fl_le[OF this, of 100] assms(2) show ?thesis by simp
  qed
  show "\<bar>fl z - z\<bar> \<le> 1 / 2 ^ 47"
  proof (cases "z = 0")
    case True
    then show ?thesis by (simp add: fl_def)
  next
    case False
    with assms(1) have pos: "0 < z" by simp
    from assms(2) have "z < 2 powi 7" by simp
    from ulp_le[OF pos this] have "ulp z \<le> 2 powi (- 46)" by simp
    also have "\<dots> = 1 / 2 ^ 46" by (simp add: power_int_minus_divide)
    finally have "ulp z / 2 \<le> 1 / 2 ^ 47" by simp
    with fl_near[of z] show ?thesis by simp
  qed
qed

lemma percentage_bounds:
  assumes "0 \<le> c" "c \<le> int n" "0 < n"
  defines "x \<equiv> of_int c / of_nat n"
  shows "int_truediv c (int n) = Inr (fl x)"
    "0 \<le> float_mul (fl x) 100" "float_mul (fl x) 100 \<le> 100"
    "\<bar>float_mul (fl x) 100 - 100 * x\<bar> \<le> 1 / 2 ^ 45"
proof -
  have x: "0 \<le> x" "x \<le> 1"
    using assms(1,2,3) by (simp_all add: x_def)
  note q = fl_unit[OF x]
  have "exponent \<bar>fl x\<bar> < 1" if "fl x \<noteq> 0"
  proof -
    from that q(1) have "0 < fl x" by simp
    moreover from q(2) have "fl x < 2 powi 1" by simp
    ultimately have "exponent (fl x) < 1" by (rule exponent_less)
    with q(1) show ?thesis by simp
  qed
  then have "\<not> (fl x \<noteq> 0 \<and> 1024 \<le> exponent \<bar>fl x\<bar>)" by auto
  then show "int_truediv c (int n) = Inr (fl x)"
    using assms(3) by (simp add: int_truediv_def Let_def x_def)
  have z: "0 \<le> fl x * 100" "fl x * 100 \<le> 100" using q(1,2) by simp_all
  note p = fl_hundred[OF z]
  show "0 \<le> float_mul (fl x) 100" "float_mul (fl x) 100 \<le> 100"
    using p(1,2) by (simp_all add: float_mul_def)
  have "\<bar>fl (fl x * 100) - 100 * x\<bar> \<le> \<bar>fl (fl x * 100) - fl x * 100\<bar> + 100 * \<bar>fl x - x\<bar>"
    by (simp add: abs_if split: if_splits)
  also have "\<dots> \<le> 1 / 2 ^ 47 + 100 * (1 / 2 ^ 53)"
    using p(3) q(3) by (intro add_mono mult_left_mono) simp_all
  also have "\<dots> \<le> 1 / 2 ^ 45" by simp
  finally show "\<bar>float_mul (fl x) 100 - 100 * x\<bar> \<le> 1 / 2 ^ 45"
    by (simp add: float_mul_def)
qed

section \<open>The share of image requests\<close>

lemma find_image_requests_eq:
  "find_image_requests data =
     Inr (count_images 0 data,
          if data = [] then 0
          else fl (fl (of_int (count_images 0 data) / of_nat (length data)) * 100))"
proof (cases "data = []")
  case True
  then show ?thesis by (simp add: find_image_requests_def)
next
  case False
  then have n: "0 < length data" by simp
  have c: "0 \<le> count_images 0 data" "count_images 0 data \<le> int (length data)"
    by (simp_all add: count_images_filter)
  from percentage_bounds(1)[OF c n] False show ?thesis
    by (simp add: find_image_requests_def float_mul_def Let_def)
qed

lemma find_image_requests_returns:
  "\<exists>percentage. find_image_requests data = Inr (count_images 0 data, percentage)"
  by (simp add: find_image_requests_eq)

text \<open>
  C7 (as amended). \<open>find_image_requests\<close> returns for every list of records, the empty
  one too: the division is not reached when there is no record. The count is between
  0 and the number of records and the percentage between 0 and 100. The percentage
  is 0 when there is no record; otherwise it is the double \<open>(count / total) * 100\<close>,
  each of the two operations rounded to the nearest double, which is within
  \<open>1 / 2 ^ 45\<close> of \<open>100 * count / total\<close>.
\<close>

theorem image_requests_bounds:
  "\<exists>image_count percentage.
     find_image_requests data = Inr (image_count, percentage)
     \<and> 0 \<le> image_count \<and> image_count \<le> int (length data)
     \<and> 0 \<le> percentage \<and> percentage \<le> 100
     \<and> (if data = [] then percentage = 0
         else percentage = fl (fl (of_int image_count / of_nat (length data)) * 100)
              \<and> \<bar>percentage - 100 * of_int image_count / of_nat (length data)\<bar> \<le> 1 / 2 ^ 45)"
proof (cases "data = []")
  case True
  then show ?thesis by (simp add: find_image_requests_eq)
next
  case False
  then have n: "0 < length data" by simp
  define c where "c = count_images 0 data"
  have c: "0 \<le> c" "c \<le> int (length data)"
    by (simp_all add: c_def count_images_filter)
  note b = percentage_bounds[OF c n]
  have r: "find_image_requests data
     = Inr (c, fl (fl (of_int c / of_nat (length data)) * 100))"
    using False by (simp add: find_image_requests_eq c_def)
  have "\<bar>fl (fl (of_int c / of_nat (length data)) * 100) - 100 * of_int c / of_nat (length data)\<bar>
          \<le> 1 / 2 ^ 45"
    using b(4) by (simp add: float_mul_def)
  with r c b(2,3) False show ?thesis by (simp add: float_mul_def)
qed

theorem image_requests_bounds_witness:
  "find_image_requests image_data = Inr (1, 2345624805922133 / 70368744177664)
   \<and> (2345624805922133 / 70368744177664 :: rat) \<le> 100
   \<and> \<bar>2345624805922133 / 70368744177664 - 100 * of_int 1 / of_nat (length image_data) :: rat\<bar>
       \<le> 1 / 2 ^ 45
   \<and> find_image_requests [] = Inr (0, 0)"
proof -
  have a: "find_image_requests image_data = Inr (1, 2345624805922133 / 70368744177664)"
    by code_simp
  have d: "image_data \<noteq> []" by (simp add: image_data_def)
  from image_requests_bounds[of image_data] obtain c p
    where r: "find_image_requests image_data = Inr (c, p)" and le: "p \<le> 100"
      and i: "if image_data = [] then p = 0
       else p = fl (fl (of_int c / of_nat (length image_data)) * 100)
            \<and> \<bar>p - 100 * of_int c / of_nat (length image_data)\<bar> \<le> 1 / 2 ^ 45"
    by blast
  from r a have cp: "c = 1" "p = 2345624805922133 / 70368744177664" by simp_all
  from conjunct2[OF i[unfolded if_not_P[OF d]]]
  have c: "\<bar>2345624805922133 / 70368744177664 - 100 * of_int 1 / of_nat (length image_data) :: rat\<bar>
       \<le> 1 / 2 ^ 45"
    unfolding cp .
  from le have b: "(2345624805922133 / 70368744177664 :: rat) \<le> 100" unfolding cp .
  from image_requests_bounds[of "[]"] have e: "find_image_requests [] = Inr (0, 0)"
    by auto
  show ?thesis by (intro conjI a b c e)
qed

text \<open>
  C7 as the specification has it fails on 11 image requests among 20 records:
  \<open>100 * 11 / 20\<close> is 55, and the double \<open>(11 / 20) * 100\<close> that the function returns is
  \<open>55.00000000000001\<close>, one unit in the last place above 55.
\<close>

theorem rounded_percentage_counterexample:
  "length eleven_of_twenty = 20
   \<and> find_image_requests eleven_of_twenty = Inr (11, 55 + 1 / 2 ^ 47)
   \<and> (100 * 11 / 20 :: rat) = 55"
  by code_simp

section \<open>Hits by hour\<close>

lemma count_hours_fold: "count_hours hc data = fold counter_incr (hours_of data) hc"
  by (induction data arbitrary: hc) (simp_all add: hours_of_def map_filter_simps split: option.splits)

lemma hours_of_append: "hours_of (xs @ ys) = hours_of xs @ hours_of ys"
  by (simp add: hours_of_def map_filter_def)

lemma hours_of_skip:
  "strptime (datetime entry) = None \<Longrightarrow> hours_of (xs @ entry # ys) = hours_of (xs @ ys)"
  by (simp add: hours_of_def map_filter_def)

lemma sorted_wrt_ties:
  assumes "\<And>c. sorted_wrt Q (filter (\<lambda>x. f x = c) r)"
  shows "sorted_wrt (\<lambda>a b. f a = f b \<longrightarrow> Q a b) r"
  using assms
proof (induction r)
  case Nil
  show ?case by simp
next
  case (Cons a r)
  have "\<And>c. sorted_wrt Q (filter (\<lambda>x. f x = c) r)"
  proof -
    fix c
    from Cons.prems[of c] show "sorted_wrt Q (filter (\<lambda>x. f x = c) r)"
      by (cases "f a = c") simp_all
  qed
  then have ih: "sorted_wrt (\<lambda>a b. f a = f b \<longrightarrow> Q a b) r" by (rule Cons.IH)
  from Cons.prems[of "f a"] have "\<forall>b \<in> set (filter (\<lambda>x. f x = f a) r). Q a b" by simp
  then have "\<forall>b \<in> set r. f a = f b \<longrightarrow> Q a b" by auto
  with ih show ?case by simp
qed

text \<open>
  C4. The result of \<open>analyze_hits_by_hour\<close> is in descending order of count; of two
  hours with the same count, the one that comes first in the result is the one seen
  first in the scan; each hour with a record occurs once, with the number of its
  records, which is at least 1, and no other hour occurs.
\<close>

theorem hits_by_hour_order:
  "sorted_wrt (\<lambda>a b. snd a \<ge> snd b) (analyze_hits_by_hour data)
   \<and> sorted_wrt (\<lambda>a b. snd a = snd b \<longrightarrow>
                   first_hit (fst a) (hours_of data) < first_hit (fst b) (hours_of data))
        (analyze_hits_by_hour data)
   \<and> distinct (map fst (analyze_hits_by_hour data))
   \<and> set (map fst (analyze_hits_by_hour data)) = set (hours_of data)
   \<and> (\<forall>(h, n) \<in> set (analyze_hits_by_hour data).
         n = int (count_list (hours_of data) h) \<and> 1 \<le> n)"
proof -
  define hs where "hs = hours_of data"
  define c where "c = fold counter_incr hs []"
  define r where "r = sort_key (\<lambda>x. - snd x) c"
  have r: "analyze_hits_by_hour data = r"
    by (simp add: analyze_hits_by_hour_def count_hours_fold r_def c_def hs_def)
  from tally_props[of hs] have d: "distinct (map fst c)" and s: "set (map fst c) = set hs"
    and o: "sorted_wrt (<) (map (\<lambda>k. first_hit k hs) (map fst c))"
    unfolding c_def by blast+
  have set_r: "set r = set c" by (simp add: r_def)
  have "sorted (map (\<lambda>x. - snd x) r)" unfolding r_def by (rule sorted_sort_key)
  then have 1: "sorted_wrt (\<lambda>a b. snd a \<ge> snd b) r"
    unfolding sorted_map by simp
  have oc: "sorted_wrt (\<lambda>a b. first_hit (fst a) hs < first_hit (fst b) hs) c"
    using o unfolding sorted_wrt_map .
  have "\<And>n. sorted_wrt (\<lambda>a b. first_hit (fst a) hs < first_hit (fst b) hs)
              (filter (\<lambda>x. snd x = n) r)"
  proof -
    fix n :: int
    have "filter (\<lambda>x. - snd x = - n) r = filter (\<lambda>x. - snd x = - n) c"
      unfolding r_def by (rule sort_key_stable)
    then have "filter (\<lambda>x. snd x = n) r = filter (\<lambda>x. snd x = n) c" by simp
    moreover have "sorted_wrt (\<lambda>a b. first_hit (fst a) hs < first_hit (fst b) hs)
              (filter (\<lambda>x. snd x = n) c)"
      using oc by (rule sorted_wrt_filter)
    ultimately show "sorted_wrt (\<lambda>a b. first_hit (fst a) hs < first_hit (fst b) hs)
              (filter (\<lambda>x. snd x = n) r)" by simp
  qed
  then have 2: "sorted_wrt (\<lambda>a b. snd a = snd b \<longrightarrow>
                   first_hit (fst a) hs < first_hit (fst b) hs) r"
    by (rule sorted_wrt_ties)
  from d have "distinct c" and "inj_on fst (set c)" by (simp_all add: distinct_map)
  then have "distinct r" and "inj_on fst (set r)" by (simp_all add: r_def)
  then have 3: "distinct (map fst r)" by (simp add: distinct_map)
  have 4: "set (map fst r) = set hs" using s set_r by simp
  have 5: "\<forall>(h, n) \<in> set r. n = int (count_list hs h) \<and> 1 \<le> n"
  proof (clarify, rule conjI)
    fix h n assume "(h, n) \<in> set r"
    then have m: "(h, n) \<in> set (fold counter_incr hs [])" by (simp add: set_r c_def)
    from tally_entry(1)[OF m] show "n = int (count_list hs h)" .
    from tally_entry(3)[OF m] show "1 \<le> n" .
  qed
  show ?thesis unfolding r hs_def [symmetric] by (intro conjI 1 2 3 4 5)
qed

theorem hits_by_hour_order_witness:
  "analyze_hits_by_hour hour_data = [(10, 2), (11, 1), (9, 1)]
   \<and> hours_of hour_data = [11, 10, 9, 10]
   \<and> first_hit 11 (hours_of hour_data) < first_hit 9 (hours_of hour_data)"
proof -
  have a: "analyze_hits_by_hour hour_data = [(10, 2), (11, 1), (9, 1)]" by code_simp
  have b: "hours_of hour_data = [11, 10, 9, 10]" by code_simp
  from conjunct1[OF conjunct2[OF hits_by_hour_order[of hour_data]]]
  have c: "first_hit 11 (hours_of hour_data) < first_hit 9 (hours_of hour_data)"
    unfolding a by simp
  show ?thesis by (intro conjI a b c)
qed

lemma find_image_requests_paths:
  assumes "map path d1 = map path d2"
  shows "find_image_requests d1 = find_image_requests d2"
proof -
  have f: "\<And>d. length (filter (\<lambda>entry. re_match image_regex (path entry)) d)
             = length (filter (re_match image_regex) (map path d))"
    by (simp add: filter_map comp_def)
  from assms have l: "length d1 = length d2" by (rule map_eq_imp_length_eq)
  then have "(d1 = []) = (d2 = [])" by auto
  with assms l show ?thesis
    by (simp add: find_image_requests_eq count_images_filter f)
qed

lemma find_most_popular_browser_agents:
  assumes "map browser d1 = map browser d2"
  shows "find_most_popular_browser d1 = find_most_popular_browser d2"
proof -
  have k: "\<And>d. keys_of d = map browser_key (map browser d)"
    by (simp add: keys_of_def)
  have "keys_of d1 = keys_of d2" unfolding k assms ..
  then show ?thesis by (simp add: find_most_popular_browser_def count_browsers_fold)
qed

lemma count_list_insert:
  "count_list (xs @ x # ys) k = count_list (xs @ ys) k + (if x = k then 1 else 0)"
  by (induction xs) simp_all

lemma counter_get_tally: "counter_get (fold counter_incr ks []) k = int (count_list ks k)"
  using tally_props[of ks] by blast

text \<open>
  C6. A record whose timestamp does not parse leaves the result of
  \<open>analyze_hits_by_hour\<close> as it is without the record. It is counted by the two other
  passes like any record: it adds 1 to the image count exactly when its path matches
  and 1 to the count of the key of its agent string, and neither pass reads the
  timestamp, so its results are the same whatever the timestamp is.
\<close>

theorem bad_timestamp_only_hours:
  "strptime (datetime entry) = None \<longrightarrow>
     analyze_hits_by_hour (xs @ entry # ys) = analyze_hits_by_hour (xs @ ys)
     \<and> (\<exists>c p c' p'. find_image_requests (xs @ entry # ys) = Inr (c, p)
           \<and> find_image_requests (xs @ ys) = Inr (c', p')
           \<and> c = c' + (if re_match image_regex (path entry) then 1 else 0))
     \<and> (\<forall>k. counter_get (count_browsers [] (xs @ entry # ys)) k
             = counter_get (count_browsers [] (xs @ ys)) k
               + (if browser_key (browser entry) = k then 1 else 0))
     \<and> find_image_requests (xs @ entry\<lparr>datetime := t\<rparr> # ys)
         = find_image_requests (xs @ entry # ys)
     \<and> find_most_popular_browser (xs @ entry\<lparr>datetime := t\<rparr> # ys)
         = find_most_popular_browser (xs @ entry # ys)"
proof (intro impI conjI allI)
  assume "strptime (datetime entry) = None"
  then show "analyze_hits_by_hour (xs @ entry # ys) = analyze_hits_by_hour (xs @ ys)"
    by (simp add: analyze_hits_by_hour_def count_hours_fold hours_of_skip)
next
  show "\<exists>c p c' p'. find_image_requests (xs @ entry # ys) = Inr (c, p)
           \<and> find_image_requests (xs @ ys) = Inr (c', p')
           \<and> c = c' + (if re_match image_regex (path entry) then 1 else 0)"
  proof -
    from find_image_requests_returns[of "xs @ entry # ys"] obtain p
      where a: "find_image_requests (xs @ entry # ys) = Inr (count_images 0 (xs @ entry # ys), p)" ..
    from find_image_requests_returns[of "xs @ ys"] obtain p'
      where b: "find_image_requests (xs @ ys) = Inr (count_images 0 (xs @ ys), p')" ..
    have "count_images 0 (xs @ entry # ys)
        = count_images 0 (xs @ ys) + (if re_match image_regex (path entry) then 1 else 0)"
      by (simp add: count_images_filter)
    with a b show ?thesis by (intro exI conjI)
  qed
next
  fix k
  have "keys_of (xs @ entry # ys) = keys_of xs @ browser_key (browser entry) # keys_of ys"
    and "keys_of (xs @ ys) = keys_of xs @ keys_of ys"
    by (simp_all add: keys_of_def)
  then show "counter_get (count_browsers [] (xs @ entry # ys)) k
             = counter_get (count_browsers [] (xs @ ys)) k
               + (if browser_key (browser entry) = k then 1 else 0)"
    by (simp add: count_browsers_fold counter_get_tally count_list_insert del: fold_append)
next
  show "find_image_requests (xs @ entry\<lparr>datetime := t\<rparr> # ys)
         = find_image_requests (xs @ entry # ys)"
    by (rule find_image_requests_paths) simp
next
  show "find_most_popular_browser (xs @ entry\<lparr>datetime := t\<rparr> # ys)
         = find_most_popular_browser (xs @ entry # ys)"
    by (rule find_most_popular_browser_agents) simp
qed

theorem bad_timestamp_only_hours_witness:
  "strptime (datetime (sample_entry ''/c.png'' ''notadate'' ''Firefox/3'')) = None
   \<and> analyze_hits_by_hour
        [sample_entry ''/a'' ''01/01/2020 11:00:00'' ''a'',
         sample_entry ''/c.png'' ''notadate'' ''Firefox/3'']
      = analyze_hits_by_hour [sample_entry ''/a'' ''01/01/2020 11:00:00'' ''a'']
   \<and> (\<exists>p. find_image_requests
        [sample_entry ''/a'' ''01/01/2020 11:00:00'' ''a'',
         sample_entry ''/c.png'' ''notadate'' ''Firefox/3''] = Inr (1, p))
   \<and> counter_get (count_browsers []
        [sample_entry ''/a'' ''01/01/2020 11:00:00'' ''a'',
         sample_entry ''/c.png'' ''notadate'' ''Firefox/3'']) ''Firefox'' = 1"
proof -
  define e where "e = sample_entry ''/c.png'' ''notadate'' ''Firefox/3''"
  define x where "x = sample_entry ''/a'' ''01/01/2020 11:00:00'' ''a''"
  have n: "strptime (datetime e) = None" unfolding e_def by code_simp
  have i: "find_image_requests ([x] @ []) = Inr (0, 0)" "re_match image_regex (path e)"
    unfolding e_def x_def by code_simp+
  have b: "counter_get (count_browsers [] ([x] @ [])) ''Firefox''
             + (if browser_key (browser e) = ''Firefox'' then 1 else 0) = 1"
    unfolding e_def x_def by code_simp
  note t = mp[OF bad_timestamp_only_hours[of e "[x]" "[]" "''''"] n]
  from conjunct1[OF t] have 1: "analyze_hits_by_hour [x, e] = analyze_hits_by_hour [x]" by simp
  from conjunct1[OF conjunct2[OF t]] obtain c p c' p'
    where "find_image_requests ([x] @ e # []) = Inr (c, p)"
      "find_image_requests ([x] @ []) = Inr (c', p')"
      "c = c' + (if re_match image_regex (path e) then 1 else 0)" by blast
  with i have "find_image_requests [x, e] = Inr (1, p)" by simp
  then have 2: "\<exists>p. find_image_requests [x, e] = Inr (1, p)" ..
  from conjunct1[OF conjunct2[OF conjunct2[OF t]]]
  have "counter_get (count_browsers [] ([x] @ e # [])) ''Firefox''
             = counter_get (count_browsers [] ([x] @ [])) ''Firefox''
               + (if browser_key (browser e) = ''Firefox'' then 1 else 0)" by (rule spec)
  with b have 3: "counter_get (count_browsers [] [x, e]) ''Firefox'' = 1" by simp
  show ?thesis using n 1 2 3 unfolding e_def x_def by (intro conjI)
qed

section \<open>The timestamp pattern\<close>

lemma digits12_cases:
  assumes "digits12 tok"
  obtains a where "tok = [a]" "is_digit a" | a b where "tok = [a, b]" "is_digit a" "is_digit b"
proof -
  from assms have "length tok = 1 \<or> length tok = 2" and d: "\<forall>c \<in> set tok. is_digit c"
    unfolding digits12_def by simp_all
  then consider "length tok = 1" | "length tok = 2" by blast
  then show thesis
  proof cases
    case 1
    then obtain a where "tok = [a]" by (cases tok) auto
    with d that(1) show thesis by simp
  next
    case 2
    then obtain a b where "tok = [a, b]" by (cases tok; cases "tl tok") auto
    with d that(2) show thesis by simp
  qed
qed

lemma all_digits12:
  assumes one: "\<forall>a \<in> set ''0123456789''. P [a]"
    and two: "\<forall>a \<in> set ''0123456789''. \<forall>b \<in> set ''0123456789''. P [a, b]"
    and t: "digits12 tok"
  shows "P tok"
  using t
proof (cases rule: digits12_cases)
  case (1 a)
  then have "a \<in> set ''0123456789''" by (simp only: is_digit_def)
  with one have "P [a]" by (rule bspec)
  with 1 show ?thesis by simp
next
  case (2 a b)
  then have a: "a \<in> set ''0123456789''" and b: "b \<in> set ''0123456789''"
    by (simp_all only: is_digit_def)
  from bspec[OF bspec[OF two a] b] have "P [a, b]" .
  with 2 show ?thesis by simp
qed

lemma m_values1: "\<forall>a \<in> set ''0123456789''. in_range m_regex 1 12 [a]"
  by code_simp

lemma m_values2: "\<forall>a \<in> set ''0123456789''. \<forall>b \<in> set ''0123456789''. in_range m_regex 1 12 [a, b]"
  by code_simp

lemma d_values1: "\<forall>a \<in> set ''0123456789''. in_range d_regex 1 31 [a]"
  by code_simp

lemma d_values2: "\<forall>a \<in> set ''0123456789''. \<forall>b \<in> set ''0123456789''. in_range d_regex 1 31 [a, b]"
  by code_simp

lemma d_blank_values:
  "\<forall>c \<in> set ''123456789''. 1 \<le> py_int [CHR '' '', c] \<and> py_int [CHR '' '', c] \<le> 9
      \<and> full_first d_regex [CHR '' '', c]"
  by code_simp

lemma H_values1: "\<forall>a \<in> set ''0123456789''. in_range H_regex 0 23 [a]"
  by code_simp

lemma H_values2: "\<forall>a \<in> set ''0123456789''. \<forall>b \<in> set ''0123456789''. in_range H_regex 0 23 [a, b]"
  by code_simp

lemma M_values1: "\<forall>a \<in> set ''0123456789''. in_range M_regex 0 59 [a]"
  by code_simp

lemma M_values2: "\<forall>a \<in> set ''0123456789''. \<forall>b \<in> set ''0123456789''. in_range M_regex 0 59 [a, b]"
  by code_simp

lemma S_values1: "\<forall>a \<in> set ''0123456789''. in_range S_regex 0 61 [a]"
  by code_simp

lemma S_values2: "\<forall>a \<in> set ''0123456789''. \<forall>b \<in> set ''0123456789''. in_range S_regex 0 61 [a, b]"
  by code_simp

lemma m_values: "digits12 tok \<Longrightarrow> in_range m_regex 1 12 tok"
  by (rule all_digits12[OF m_values1 m_values2])

lemma d_values: "digits12 tok \<Longrightarrow> in_range d_regex 1 31 tok"
  by (rule all_digits12[OF d_values1 d_values2])

lemma H_values: "digits12 tok \<Longrightarrow> in_range H_regex 0 23 tok"
  by (rule all_digits12[OF H_values1 H_values2])

lemma M_values: "digits12 tok \<Longrightarrow> in_range M_regex 0 59 tok"
  by (rule all_digits12[OF M_values1 M_values2])

lemma S_values: "digits12 tok \<Longrightarrow> in_range S_regex 0 61 tok"
  by (rule all_digits12[OF S_values1 S_values2])

lemma lower_cases: "lower a = a \<or> lower a \<in> set ''abcdefghijklmnopqrstuvwxyz''"
proof (cases "map_of (zip ''ABCDEFGHIJKLMNOPQRSTUVWXYZ'' ''abcdefghijklmnopqrstuvwxyz'') a")
  case None
  then show ?thesis by (simp add: lower_def)
next
  case (Some l)
  then have "(a, l) \<in> set (zip ''ABCDEFGHIJKLMNOPQRSTUVWXYZ'' ''abcdefghijklmnopqrstuvwxyz'')"
    by (rule map_of_SomeD)
  then have "l \<in> set ''abcdefghijklmnopqrstuvwxyz''" by (rule set_zip_rightD)
  moreover from Some have "lower a = l" by (simp add: lower_def)
  ultimately show ?thesis by simp
qed

lemma lower_eq_inert: "inert c \<Longrightarrow> lower a = lower c \<longleftrightarrow> a = c"
  using lower_cases[of a] unfolding inert_def by auto

lemma Str_inert: "inert c \<Longrightarrow> rmatch (Str [c]) s = one_char (\<lambda>x. x = c) s"
  by (cases s) (simp_all add: lower_eq_inert)

lemma inert_chars:
  "inert CHR ''0''" "inert CHR ''1''" "inert CHR ''2''" "inert CHR ''3''" "inert CHR ''6''"
  "inert CHR '' ''" "inert CHR ''/''" "inert CHR '':''"
  unfolding inert_def by code_simp+

lemmas Str_chars = inert_chars[THEN Str_inert]

lemma not_digit_seps: "\<not> is_digit CHR ''/''" "\<not> is_digit CHR '':''"
  by (simp_all add: is_digit_def)

lemma alt_ext:
  assumes "rmatch x s = map f (rmatch x s')" "rmatch y s = map f (rmatch y s')"
  shows "rmatch (Alt x y) s = map f (rmatch (Alt x y) s')"
  using assms by simp

lemma m_ext2: "rmatch m_regex (a # b # rest) = map (\<lambda>t. t @ rest) (rmatch m_regex [a, b])"
  unfolding m_regex_def by (intro alt_ext) simp_all

lemma m_ext1:
  "rmatch m_regex (a # CHR ''/'' # rest) = map (\<lambda>t. t @ CHR ''/'' # rest) (rmatch m_regex [a])"
  unfolding m_regex_def by (intro alt_ext) (simp_all add: Str_chars)

lemma d_ext2: "rmatch d_regex (a # b # rest) = map (\<lambda>t. t @ rest) (rmatch d_regex [a, b])"
  unfolding d_regex_def by (intro alt_ext) simp_all

lemma d_ext1:
  "rmatch d_regex (a # CHR ''/'' # rest) = map (\<lambda>t. t @ CHR ''/'' # rest) (rmatch d_regex [a])"
  unfolding d_regex_def by (intro alt_ext) (simp_all add: Str_chars not_digit_seps)

lemma H_ext2: "rmatch H_regex (a # b # rest) = map (\<lambda>t. t @ rest) (rmatch H_regex [a, b])"
  unfolding H_regex_def by (intro alt_ext) simp_all

lemma H_ext1:
  "rmatch H_regex (a # CHR '':'' # rest) = map (\<lambda>t. t @ CHR '':'' # rest) (rmatch H_regex [a])"
  unfolding H_regex_def by (intro alt_ext) (simp_all add: Str_chars not_digit_seps)

lemma M_ext2: "rmatch M_regex (a # b # rest) = map (\<lambda>t. t @ rest) (rmatch M_regex [a, b])"
  unfolding M_regex_def by (intro alt_ext) simp_all

lemma M_ext1:
  "rmatch M_regex (a # CHR '':'' # rest) = map (\<lambda>t. t @ CHR '':'' # rest) (rmatch M_regex [a])"
  unfolding M_regex_def by (intro alt_ext) (simp_all add: Str_chars not_digit_seps)

lemma full_first_head:
  assumes "full_first r tok"
  obtains others where "rmatch r tok = [] # others"
  using assms unfolding full_first_def by (cases "rmatch r tok") auto

lemma head_ext:
  assumes e1: "\<And>a rest. rmatch r (a # sep # rest) = map (\<lambda>t. t @ sep # rest) (rmatch r [a])"
    and e2: "\<And>a b rest. rmatch r (a # b # rest) = map (\<lambda>t. t @ rest) (rmatch r [a, b])"
    and d: "length tok = 1 \<or> length tok = 2" and f: "full_first r tok"
  shows "\<exists>others. rmatch r (tok @ sep # rest) = (sep # rest) # others"
proof -
  from f obtain os where os: "rmatch r tok = [] # os" by (rule full_first_head)
  from d consider a where "tok = [a]" | a b where "tok = [a, b]"
    by (cases tok; cases "tl tok") auto
  then show ?thesis
  proof cases
    case 1
    with e1[of a rest] os show ?thesis by simp
  next
    case 2
    with e2[of a b "sep # rest"] os show ?thesis by simp
  qed
qed

lemma in_range_first: "in_range r lo hi tok \<Longrightarrow> lo \<le> py_int tok \<Longrightarrow> py_int tok \<le> hi \<Longrightarrow> full_first r tok"
  by (simp add: in_range_def)

lemma digits12_length: "digits12 tok \<Longrightarrow> length tok = 1 \<or> length tok = 2"
  by (simp add: digits12_def)

lemma m_head:
  assumes "digits12 m" "1 \<le> py_int m" "py_int m \<le> 12"
  shows "\<exists>others. rmatch m_regex (m @ CHR ''/'' # rest) = (CHR ''/'' # rest) # others"
  by (rule head_ext[OF m_ext1 m_ext2 digits12_length[OF assms(1)]
        in_range_first[OF m_values[OF assms(1)] assms(2,3)]])

lemma H_head:
  assumes "digits12 H" "0 \<le> py_int H" "py_int H \<le> 23"
  shows "\<exists>others. rmatch H_regex (H @ CHR '':'' # rest) = (CHR '':'' # rest) # others"
  by (rule head_ext[OF H_ext1 H_ext2 digits12_length[OF assms(1)]
        in_range_first[OF H_values[OF assms(1)] assms(2,3)]])

lemma M_head:
  assumes "digits12 M" "0 \<le> py_int M" "py_int M \<le> 59"
  shows "\<exists>others. rmatch M_regex (M @ CHR '':'' # rest) = (CHR '':'' # rest) # others"
  by (rule head_ext[OF M_ext1 M_ext2 digits12_length[OF assms(1)]
        in_range_first[OF M_values[OF assms(1)] assms(2,3)]])

lemma S_head:
  assumes "digits12 S" "0 \<le> py_int S" "py_int S \<le> 61"
  shows "\<exists>others. rmatch S_regex S = [] # others"
  using full_first_head[OF in_range_first[OF S_values[OF assms(1)] assms(2,3)]] by blast

lemma d_head:
  assumes "day_token d" "1 \<le> py_int d" "py_int d \<le> 31"
  shows "\<exists>others. rmatch d_regex (d @ CHR ''/'' # rest) = (CHR ''/'' # rest) # others"
proof (cases "digits12 d")
  case True
  show ?thesis
    by (rule head_ext[OF d_ext1 d_ext2 digits12_length[OF True]
          in_range_first[OF d_values[OF True] assms(2,3)]])
next
  case False
  with assms(1) obtain c where c: "c \<in> set ''123456789''" and d: "d = [CHR '' '', c]"
    unfolding day_token_def by blast
  from bspec[OF d_blank_values c] have f: "full_first d_regex d" unfolding d by simp
  have l: "length d = 1 \<or> length d = 2" by (simp add: d)
  show ?thesis by (rule head_ext[OF d_ext1 d_ext2 l f])
qed

lemma Y_head:
  assumes "length Y = 4" "\<forall>c \<in> set Y. is_digit c"
  shows "rmatch Y_regex (Y @ rest) = [rest]"
proof -
  from assms(1) obtain a b c d where "Y = [a, b, c, d]"
    by (auto simp: length_Suc_conv numeral_eq_Suc)
  with assms(2) show ?thesis by (simp add: Y_regex_def)
qed

lemma star_head:
  assumes "\<forall>c \<in> set ws. P c" "rest = [] \<or> \<not> P (hd rest)" "length (ws @ rest) \<le> n"
  shows "\<exists>others. star_iter (one_char P) n (ws @ rest) = rest # others"
  using assms
proof (induction ws arbitrary: n)
  case Nil
  then have "one_char P rest = []" by (cases rest) auto
  then show ?case by (cases n) simp_all
next
  case (Cons w ws)
  then obtain n' where n: "n = Suc n'" by (cases n) auto
  with Cons.prems have "length (ws @ rest) \<le> n'" by simp
  with Cons.IH[of n'] Cons.prems obtain others
    where "star_iter (one_char P) n' (ws @ rest) = rest # others" by auto
  with Cons.prems show ?case by (simp add: n)
qed

lemma ws_head:
  assumes "ws \<noteq> []" "\<forall>c \<in> set ws. isspace c" "rest = [] \<or> \<not> isspace (hd rest)"
  shows "\<exists>others. rmatch (rplus Space) (ws @ rest) = rest # others"
proof -
  from assms(1) obtain w ws' where ws: "ws = w # ws'" by (cases ws) auto
  with assms(2) have w: "isspace w" and "\<forall>c \<in> set ws'. isspace c" by simp_all
  from star_head[OF this(2) assms(3) order_refl]
  obtain others where "star_iter (one_char isspace) (length (ws' @ rest)) (ws' @ rest) = rest # others"
    by blast
  with w show ?thesis by (simp add: rplus_def ws)
qed

lemma digit_not_space: "is_digit c \<Longrightarrow> \<not> isspace c"
  unfolding is_digit_def isspace_def by auto

lemma group_head:
  "rmatch r (tok @ rest) = rest # others \<Longrightarrow>
   \<exists>junk. group r (tok @ rest) = (tok, rest) # junk"
  by (simp add: group_def)

lemma digits12_hd: "digits12 tok \<Longrightarrow> tok @ rest \<noteq> [] \<and> \<not> isspace (hd (tok @ rest))"
  by (cases tok) (auto simp: digits12_def digit_not_space)

lemma format_regex_head:
  assumes m: "digits12 m" "1 \<le> py_int m" "py_int m \<le> 12"
    and d: "day_token d" "1 \<le> py_int d" "py_int d \<le> 31"
    and Y: "length Y = 4" "\<forall>c \<in> set Y. is_digit c"
    and ws: "ws \<noteq> []" "\<forall>c \<in> set ws. isspace c"
    and H: "digits12 H" "0 \<le> py_int H" "py_int H \<le> 23"
    and M: "digits12 M" "0 \<le> py_int M" "py_int M \<le> 59"
    and S: "digits12 S" "0 \<le> py_int S" "py_int S \<le> 61"
  shows "\<exists>junk. format_regex (m @ ''/'' @ d @ ''/'' @ Y @ ws @ H @ '':'' @ M @ '':'' @ S)
           = ((m, d, Y, H, M, S), []) # junk"
proof -
  define r8 where "r8 = M @ CHR '':'' # S"
  define r6 where "r6 = H @ CHR '':'' # r8"
  define r5 where "r5 = ws @ r6"
  define r4 where "r4 = Y @ r5"
  define r2 where "r2 = d @ CHR ''/'' # r4"
  have ts: "m @ ''/'' @ d @ ''/'' @ Y @ ws @ H @ '':'' @ M @ '':'' @ S = m @ CHR ''/'' # r2"
    by (simp add: r2_def r4_def r5_def r6_def r8_def)
  from group_head m_head[OF m] obtain j1
    where g1: "group m_regex (m @ CHR ''/'' # r2) = (m, CHR ''/'' # r2) # j1" by blast
  from group_head d_head[OF d] obtain j2
    where g2: "group d_regex r2 = (d, CHR ''/'' # r4) # j2" unfolding r2_def by blast
  from group_head[of Y_regex Y r5 "[]"] Y_head[OF Y] obtain j3
    where g3: "group Y_regex r4 = (Y, r5) # j3" unfolding r4_def by blast
  from digits12_hd[OF H(1)] have "r6 = [] \<or> \<not> isspace (hd r6)" by (simp add: r6_def)
  from ws_head[OF ws this] obtain j4
    where g4: "rmatch (rplus Space) r5 = r6 # j4" unfolding r5_def by blast
  from group_head H_head[OF H] obtain j5
    where g5: "group H_regex r6 = (H, CHR '':'' # r8) # j5" unfolding r6_def by blast
  from group_head M_head[OF M] obtain j6
    where g6: "group M_regex r8 = (M, CHR '':'' # S) # j6" unfolding r8_def by blast
  from group_head[of S_regex S "[]"] S_head[OF S] obtain j7
    where g7: "group S_regex S = (S, []) # j7" by auto
  have sep: "\<And>c s. inert c \<Longrightarrow> rmatch (Str [c]) (c # s) = [s]"
    by (simp add: Str_inert)
  note seps = sep[OF inert_chars(7)] sep[OF inert_chars(8)]
  show ?thesis
    unfolding ts format_regex_def
    by (simp add: seps g1 g2 g3 g4 g5 g6 g7 del: rmatch.simps)
qed

lemma one_char_mem: "t \<in> set (one_char P s) \<longleftrightarrow> (\<exists>x. s = x # t \<and> P x)"
  by (cases s) auto

lemma tok_sound_Alt: "tok_sound P x \<Longrightarrow> tok_sound P y \<Longrightarrow> tok_sound P (Alt x y)"
  unfolding tok_sound_def by auto

lemma tok_sound_1:
  assumes "rmatch x = one_char A" "\<And>a. A a \<Longrightarrow> P [a]"
  shows "tok_sound P x"
  unfolding tok_sound_def assms(1) one_char_mem using assms(2) by auto

lemma tok_sound_2:
  assumes "rmatch x = one_char A" "rmatch y = one_char B" "\<And>a b. A a \<Longrightarrow> B b \<Longrightarrow> P [a, b]"
  shows "tok_sound P (Seq x y)"
proof -
  have "\<exists>tok. s = tok @ t \<and> P tok" if "t \<in> set (rmatch (Seq x y) s)" for s t
  proof -
    from that obtain u where "u \<in> set (one_char A s)" "t \<in> set (one_char B u)"
      by (auto simp: assms(1,2))
    then obtain a b where "s = a # u" "A a" "u = b # t" "B b"
      unfolding one_char_mem by blast
    then have "s = [a, b] @ t" "P [a, b]" using assms(3) by simp_all
    then show ?thesis by blast
  qed
  then show ?thesis unfolding tok_sound_def by blast
qed

lemma r_OneOf: "rmatch (OneOf cs) = one_char (\<lambda>x. x \<in> set cs)"
  by simp

lemma r_Digit: "rmatch Digit = one_char is_digit"
  by simp

lemma r_Str: "inert c \<Longrightarrow> rmatch (Str [c]) = one_char (\<lambda>x. x = c)"
  by (rule ext) (rule Str_inert)

lemmas r_chars = inert_chars[THEN r_Str]

lemma m_sound: "tok_sound digits12 m_regex"
  unfolding m_regex_def
proof (intro tok_sound_Alt)
  show "tok_sound digits12 (Seq (Str ''1'') (OneOf ''012''))"
    by (rule tok_sound_2[OF r_chars(2) r_OneOf]) (auto simp: digits12_def is_digit_def)
  show "tok_sound digits12 (Seq (Str ''0'') (OneOf ''123456789''))"
    by (rule tok_sound_2[OF r_chars(1) r_OneOf]) (auto simp: digits12_def is_digit_def)
  show "tok_sound digits12 (OneOf ''123456789'')"
    by (rule tok_sound_1[OF r_OneOf]) (auto simp: digits12_def is_digit_def)
qed

lemma H_sound: "tok_sound digits12 H_regex"
  unfolding H_regex_def
proof (intro tok_sound_Alt)
  show "tok_sound digits12 (Seq (Str ''2'') (OneOf ''0123''))"
    by (rule tok_sound_2[OF r_chars(3) r_OneOf]) (auto simp: digits12_def is_digit_def)
  show "tok_sound digits12 (Seq (OneOf ''01'') Digit)"
    by (rule tok_sound_2[OF r_OneOf r_Digit]) (auto simp: digits12_def is_digit_def)
  show "tok_sound digits12 Digit"
    by (rule tok_sound_1[OF r_Digit]) (auto simp: digits12_def)
qed

lemma M_sound: "tok_sound digits12 M_regex"
  unfolding M_regex_def
proof (intro tok_sound_Alt)
  show "tok_sound digits12 (Seq (OneOf ''012345'') Digit)"
    by (rule tok_sound_2[OF r_OneOf r_Digit]) (auto simp: digits12_def is_digit_def)
  show "tok_sound digits12 Digit"
    by (rule tok_sound_1[OF r_Digit]) (auto simp: digits12_def)
qed

lemma S_sound: "tok_sound digits12 S_regex"
  unfolding S_regex_def
proof (intro tok_sound_Alt)
  show "tok_sound digits12 (Seq (Str ''6'') (OneOf ''01''))"
    by (rule tok_sound_2[OF r_chars(5) r_OneOf]) (auto simp: digits12_def is_digit_def)
  show "tok_sound digits12 (Seq (OneOf ''012345'') Digit)"
    by (rule tok_sound_2[OF r_OneOf r_Digit]) (auto simp: digits12_def is_digit_def)
  show "tok_sound digits12 Digit"
    by (rule tok_sound_1[OF r_Digit]) (auto simp: digits12_def)
qed

lemma day_token_blank: "a = CHR '' '' \<Longrightarrow> b \<in> set ''123456789'' \<Longrightarrow> day_token [a, b]"
  unfolding day_token_def by blast

lemma d_sound: "tok_sound day_token d_regex"
  unfolding d_regex_def
proof (intro tok_sound_Alt)
  show "tok_sound day_token (Seq (Str ''3'') (OneOf ''01''))"
    by (rule tok_sound_2[OF r_chars(4) r_OneOf]) (auto simp: day_token_def digits12_def is_digit_def)
  show "tok_sound day_token (Seq (OneOf ''12'') Digit)"
    by (rule tok_sound_2[OF r_OneOf r_Digit]) (auto simp: day_token_def digits12_def is_digit_def)
  show "tok_sound day_token (Seq (Str ''0'') (OneOf ''123456789''))"
    by (rule tok_sound_2[OF r_chars(1) r_OneOf]) (auto simp: day_token_def digits12_def is_digit_def)
  show "tok_sound day_token (OneOf ''123456789'')"
    by (rule tok_sound_1[OF r_OneOf]) (auto simp: day_token_def digits12_def is_digit_def)
  show "tok_sound day_token (Seq (Str '' '') (OneOf ''123456789''))"
    by (rule tok_sound_2[OF r_chars(6) r_OneOf]) (rule day_token_blank)
qed

lemma Y_sound:
  "tok_sound (\<lambda>Y. length Y = 4 \<and> (\<forall>c \<in> set Y. is_digit c)) Y_regex"
proof -
  have "\<exists>tok. s = tok @ t \<and> length tok = 4 \<and> (\<forall>c \<in> set tok. is_digit c)"
    if "t \<in> set (rmatch Y_regex s)" for s t
  proof -
    from that obtain u1 u2 u3 where "u1 \<in> set (one_char is_digit s)"
      "u2 \<in> set (one_char is_digit u1)" "u3 \<in> set (one_char is_digit u2)"
      "t \<in> set (one_char is_digit u3)"
      by (auto simp: Y_regex_def)
    then obtain a b c d where "s = a # u1" "u1 = b # u2" "u2 = c # u3" "u3 = d # t"
      and "is_digit a" "is_digit b" "is_digit c" "is_digit d"
      unfolding one_char_mem by blast
    then have "s = [a, b, c, d] @ t" "length [a, b, c, d] = 4" "\<forall>x \<in> set [a, b, c, d]. is_digit x"
      by simp_all
    then show ?thesis by blast
  qed
  then show ?thesis unfolding tok_sound_def by blast
qed

lemma ws_sound:
  "tok_sound (\<lambda>ws. ws \<noteq> [] \<and> (\<forall>c \<in> set ws. isspace c)) (rplus Space)"
proof -
  have "\<exists>ws. s = ws @ t \<and> ws \<noteq> [] \<and> (\<forall>c \<in> set ws. isspace c)"
    if "t \<in> set (rmatch (rplus Space) s)" for s t
  proof -
    from that obtain u where "u \<in> set (one_char isspace s)"
      and "t \<in> set (star_iter (one_char isspace) (length u) u)"
      by (auto simp: rplus_def)
    then obtain x k where s: "s = x # u" and x: "isspace x" and t: "t = drop k u"
      and k: "k \<le> length (takeWhile isspace u)"
      unfolding one_char_mem by (auto simp: star_iter_one_char_set)
    from take_takeWhile[OF k] x have "\<forall>c \<in> set (x # take k u). isspace c" by simp
    moreover have "s = (x # take k u) @ t" by (simp add: s t)
    ultimately show ?thesis by blast
  qed
  then show ?thesis unfolding tok_sound_def by blast
qed

lemma sep_sound: "inert c \<Longrightarrow> t \<in> set (rmatch (Str [c]) s) \<Longrightarrow> s = c # t"
  by (simp add: Str_inert one_char_mem del: rmatch.simps)

lemma group_sound:
  assumes "tok_sound P r" "(tok, t) \<in> set (group r s)"
  shows "s = tok @ t \<and> P tok"
proof -
  from assms(2) have t: "t \<in> set (rmatch r s)" and tok: "tok = take (length s - length t) s"
    by (auto simp: group_def)
  from assms(1) t obtain tok' where "s = tok' @ t" "P tok'" unfolding tok_sound_def by blast
  with tok show ?thesis by simp
qed

lemma format_regex_mem:
  assumes "((m, d, Y, H, M, S), r) \<in> set (format_regex s0)"
  shows "\<exists>s1 s2 s3 s4 s5 s6 s7 s8 s9 s10.
     (m, s1) \<in> set (group m_regex s0) \<and> s2 \<in> set (rmatch (Str ''/'') s1)
     \<and> (d, s3) \<in> set (group d_regex s2) \<and> s4 \<in> set (rmatch (Str ''/'') s3)
     \<and> (Y, s5) \<in> set (group Y_regex s4) \<and> s6 \<in> set (rmatch (rplus Space) s5)
     \<and> (H, s7) \<in> set (group H_regex s6) \<and> s8 \<in> set (rmatch (Str '':'') s7)
     \<and> (M, s9) \<in> set (group M_regex s8) \<and> s10 \<in> set (rmatch (Str '':'') s9)
     \<and> (S, r) \<in> set (group S_regex s10)"
  using assms unfolding format_regex_def
  by (auto simp del: rmatch.simps) (intro exI conjI, assumption+)

lemma format_regex_shape:
  assumes "((m, d, Y, H, M, S), []) \<in> set (format_regex ts)"
  shows "timestamp_shape ts (m, d, Y, H, M, S)"
proof -
  from format_regex_mem[OF assms] obtain s1 s2 s3 s4 s5 s6 s7 s8 s9 s10 where
    c: "(m, s1) \<in> set (group m_regex ts)" "s2 \<in> set (rmatch (Str ''/'') s1)"
       "(d, s3) \<in> set (group d_regex s2)" "s4 \<in> set (rmatch (Str ''/'') s3)"
       "(Y, s5) \<in> set (group Y_regex s4)" "s6 \<in> set (rmatch (rplus Space) s5)"
       "(H, s7) \<in> set (group H_regex s6)" "s8 \<in> set (rmatch (Str '':'') s7)"
       "(M, s9) \<in> set (group M_regex s8)" "s10 \<in> set (rmatch (Str '':'') s9)"
       "(S, []) \<in> set (group S_regex s10)"
    by blast
  from group_sound[OF m_sound c(1)] have 1: "ts = m @ s1" "digits12 m" by simp_all
  from sep_sound[OF inert_chars(7) c(2)] have 2: "s1 = CHR ''/'' # s2" .
  from group_sound[OF d_sound c(3)] have 3: "s2 = d @ s3" "day_token d" by simp_all
  from sep_sound[OF inert_chars(7) c(4)] have 4: "s3 = CHR ''/'' # s4" .
  from group_sound[OF Y_sound c(5)] have 5: "s4 = Y @ s5" "length Y = 4" "\<forall>c \<in> set Y. is_digit c"
    by simp_all
  from ws_sound c(6) obtain ws where 6: "s5 = ws @ s6" "ws \<noteq> []" "\<forall>c \<in> set ws. isspace c"
    unfolding tok_sound_def by blast
  from group_sound[OF H_sound c(7)] have 7: "s6 = H @ s7" "digits12 H" by simp_all
  from sep_sound[OF inert_chars(8) c(8)] have 8: "s7 = CHR '':'' # s8" .
  from group_sound[OF M_sound c(9)] have 9: "s8 = M @ s9" "digits12 M" by simp_all
  from sep_sound[OF inert_chars(8) c(10)] have 10: "s9 = CHR '':'' # s10" .
  from group_sound[OF S_sound c(11)] have 11: "s10 = S" "digits12 S" by simp_all
  have "ts = m @ ''/'' @ d @ ''/'' @ Y @ ws @ H @ '':'' @ M @ '':'' @ S"
    by (simp add: 1(1) 2 3(1) 4 5(1) 6(1) 7(1) 8 9(1) 10 11(1))
  with 1(2) 3(2) 5(2,3) 6(2,3) 7(2) 9(2) 11(2) show ?thesis
    unfolding timestamp_shape_def by auto
qed

lemma strptime_fields:
  "strptime ts = (case format_regex ts of [] \<Rightarrow> None
     | (g, rest) # _ \<Rightarrow> if rest \<noteq> [] then None else check_fields (fields_of g))"
  unfolding strptime_def fields_of_def by (auto split: list.splits)

lemma strptime_sound:
  assumes "strptime ts = Some t"
  shows "\<exists>g. timestamp_shape ts g \<and> check_fields (fields_of g) = Some t"
proof -
  from assms obtain g junk where f: "format_regex ts = (g, []) # junk"
    and c: "check_fields (fields_of g) = Some t"
    unfolding strptime_fields by (auto split: list.splits if_splits)
  obtain m d Y H M S where g: "g = (m, d, Y, H, M, S)" by (cases g)
  from f have "((m, d, Y, H, M, S), []) \<in> set (format_regex ts)" by (simp add: g)
  then have "timestamp_shape ts g" unfolding g by (rule format_regex_shape)
  with c show ?thesis by blast
qed

lemma days_in_month_le: "days_in_month y m \<le> 31"
  by (simp add: days_in_month_def)

lemma strptime_complete:
  assumes "timestamp_shape ts g" "check_fields (fields_of g) = Some t"
  shows "strptime ts = Some t"
proof -
  obtain m d Y H M S where g: "g = (m, d, Y, H, M, S)" by (cases g)
  from assms(1) obtain ws where ts: "ts = m @ ''/'' @ d @ ''/'' @ Y @ ws @ H @ '':'' @ M @ '':'' @ S"
    and s: "digits12 m" "day_token d" "length Y = 4" "\<forall>c \<in> set Y. is_digit c"
      "ws \<noteq> []" "\<forall>c \<in> set ws. isspace c" "digits12 H" "digits12 M" "digits12 S"
    unfolding timestamp_shape_def g by auto
  from assms(2) have r: "1 \<le> py_int m" "py_int m \<le> 12" "1 \<le> py_int d"
    "py_int d \<le> days_in_month (py_int Y) (py_int m)"
    "0 \<le> py_int H" "py_int H \<le> 23" "0 \<le> py_int M" "py_int M \<le> 59"
    "0 \<le> py_int S" "py_int S \<le> 59"
    unfolding check_fields_def fields_of_def g by (simp_all split: if_splits)
  from r(4) days_in_month_le[of "py_int Y" "py_int m"] have d31: "py_int d \<le> 31" by simp
  from r(10) have s61: "py_int S \<le> 61" by simp
  from format_regex_head[OF s(1) r(1,2) s(2) r(3) d31 s(3,4,5,6) s(7) r(5,6) s(8) r(7,8) s(9) r(9) s61]
  obtain junk where "format_regex ts = (g, []) # junk" unfolding ts g by blast
  with assms(2) show ?thesis unfolding strptime_fields by simp
qed

text \<open>
  C8 (as amended). Among the timestamps whose characters are all below code point 256,
  which are the strings here, \<open>strptime\<close> returns a date exactly for those of the shape
  month \<open>/\<close> day \<open>/\<close> year, whitespace, hour \<open>:\<close> minute \<open>:\<close> second, where the year has
  four ASCII digits and every other number one or two, whose numbers are a date and a
  time of day. A record whose timestamp does not parse is skipped by the count of hours,
  and a record whose timestamp parses is counted for its hour.
\<close>

theorem strptime_format:
  "(strptime ts = Some t \<longleftrightarrow>
      (\<exists>g. timestamp_shape ts g \<and> check_fields (fields_of g) = Some t))
   \<and> (strptime (datetime entry) = None \<longrightarrow>
        count_hours hour_counts (entry # data) = count_hours hour_counts data)
   \<and> (strptime (datetime entry) = Some t \<longrightarrow>
        count_hours hour_counts (entry # data)
          = count_hours (counter_incr (hour t) hour_counts) data)"
proof (intro conjI impI iffI)
  assume "strptime ts = Some t"
  then show "\<exists>g. timestamp_shape ts g \<and> check_fields (fields_of g) = Some t"
    by (rule strptime_sound)
next
  assume "\<exists>g. timestamp_shape ts g \<and> check_fields (fields_of g) = Some t"
  then show "strptime ts = Some t" using strptime_complete by blast
next
  assume "strptime (datetime entry) = None"
  then show "count_hours hour_counts (entry # data) = count_hours hour_counts data" by simp
next
  assume "strptime (datetime entry) = Some t"
  then show "count_hours hour_counts (entry # data)
          = count_hours (counter_incr (hour t) hour_counts) data" by simp
qed

theorem strptime_format_witness:
  "strptime ''01/01/2020 10:15:00''
     = Some \<lparr>year = 2020, month = 1, day = 1, hour = 10, minute = 15, second = 0\<rparr>
   \<and> (\<exists>g. timestamp_shape ''01/01/2020 10:15:00'' g
          \<and> check_fields (fields_of g)
              = Some \<lparr>year = 2020, month = 1, day = 1, hour = 10, minute = 15, second = 0\<rparr>)
   \<and> strptime (datetime (sample_entry ''/a'' ''notadate'' ''a'')) = None
   \<and> count_hours [] (sample_entry ''/a'' ''notadate'' ''a'' # []) = count_hours [] []"
proof -
  define t0 where "t0 = \<lparr>year = 2020, month = 1, day = 1, hour = 10, minute = 15, second = 0\<rparr>"
  have a: "strptime ''01/01/2020 10:15:00'' = Some t0" unfolding t0_def by code_simp
  have n: "strptime (datetime (sample_entry ''/a'' ''notadate'' ''a'')) = None" by code_simp
  note t = strptime_format[of "''01/01/2020 10:15:00''" t0 "sample_entry ''/a'' ''notadate'' ''a''"
      "[]" "[]"]
  from conjunct1[OF t] a
  have b: "\<exists>g. timestamp_shape ''01/01/2020 10:15:00'' g \<and> check_fields (fields_of g) = Some t0"
    by (rule iffD1)
  from mp[OF conjunct1[OF conjunct2[OF t]] n]
  have c: "count_hours [] (sample_entry ''/a'' ''notadate'' ''a'' # []) = count_hours [] []" .
  show ?thesis using a b n c unfolding t0_def by (intro conjI)
qed

text \<open>
  The claim as stated fails on a month of one digit: the timestamp parses and its record
  is counted.
\<close>

theorem one_digit_month_counterexample:
  "strptime ''1/01/2020 10:15:00''
     = Some \<lparr>year = 2020, month = 1, day = 1, hour = 10, minute = 15, second = 0\<rparr>
   \<and> analyze_hits_by_hour [sample_entry ''/a'' ''1/01/2020 10:15:00'' ''a''] = [(10, 1)]"
  by code_simp

section \<open>The rows of \<open>process_csv\<close>\<close>

lemma collect_entries_eq:
  "collect_entries acc rows = acc @ map entry_of (filter (\<lambda>row. 5 \<le> length row) rows)"
  by (induction rows arbitrary: acc) (simp_all add: entry_of_def)

lemma reader_rows_lines:
  assumes "\<forall>line \<in> set lines. line_fields line \<noteq> None"
  shows "reader_rows parse_reset lines = Inr (map (\<lambda>line. the (line_fields line)) lines)"
  using assms
proof (induction lines)
  case Nil
  show ?case by (simp add: parse_reset_def)
next
  case (Cons l ls)
  from Cons.prems have "line_fields l \<noteq> None" by simp
  then obtain self where p: "parse_line parse_reset l = Inr self" and s: "state self = START_RECORD"
    and f: "the (line_fields l) = fields' self"
    unfolding line_fields_def by (auto split: sum.splits if_splits)
  from Cons have "reader_rows parse_reset ls = Inr (map (\<lambda>line. the (line_fields line)) ls)"
    by simp
  with p s f show ?case by simp
qed

lemmas step_defs = parse_save_field_def parse_add_char_def is_crnl_def set_state_def

lemma step_char:
  assumes "state self \<noteq> EAT_CRNL" "c \<noteq> CHR 0x0A" "c \<noteq> CHR 0x0D"
    "length (field self) < field_limit"
  shows "\<exists>self'. parse_process_char self (Some c) = Inr self' \<and> state self' \<noteq> EAT_CRNL
           \<and> length (field self') \<le> Suc (length (field self))"
  using assms by (cases "state self") (simp_all add: step_defs)

lemma step_eol:
  assumes "state self \<noteq> EAT_CRNL"
  shows "\<exists>self'. parse_process_char self None = Inr self'
           \<and> (state self' = START_RECORD \<or> state self' = IN_QUOTED_FIELD)
           \<and> length (field self') \<le> length (field self)"
  using assms by (cases "state self") (simp_all add: step_defs)

lemma parse_line_ok:
  assumes "state self \<noteq> EAT_CRNL" "\<forall>c \<in> set l. c \<noteq> CHR 0x0A \<and> c \<noteq> CHR 0x0D"
    "length (field self) + length l \<le> field_limit"
  shows "\<exists>self'. parse_line self l = Inr self'
           \<and> (state self' = START_RECORD \<or> state self' = IN_QUOTED_FIELD)
           \<and> length (field self') \<le> length (field self) + length l"
  using assms
proof (induction l arbitrary: self)
  case Nil
  from step_eol[OF Nil.prems(1)] show ?case by (simp del: parse_process_char.simps)
next
  case (Cons c cs)
  from Cons.prems have c: "c \<noteq> CHR 0x0A" "c \<noteq> CHR 0x0D" and l: "length (field self) < field_limit"
    by simp_all
  from step_char[OF Cons.prems(1) c l] obtain s1 where s1: "parse_process_char self (Some c) = Inr s1"
    "state s1 \<noteq> EAT_CRNL" "length (field s1) \<le> Suc (length (field self))" by blast
  from Cons.prems s1(3) have "\<forall>c \<in> set cs. c \<noteq> CHR 0x0A \<and> c \<noteq> CHR 0x0D"
    "length (field s1) + length cs \<le> field_limit" by simp_all
  from Cons.IH[OF s1(2) this] obtain s2 where "parse_line s1 cs = Inr s2"
    "state s2 = START_RECORD \<or> state s2 = IN_QUOTED_FIELD"
    "length (field s2) \<le> length (field s1) + length cs" by blast
  with s1 show ?case by (simp del: parse_process_char.simps)
qed

lemma reader_rows_ok:
  assumes "state self \<noteq> EAT_CRNL"
    "\<forall>l \<in> set lines. \<forall>c \<in> set l. c \<noteq> CHR 0x0A \<and> c \<noteq> CHR 0x0D"
    "length (field self) + sum_list (map length lines) \<le> field_limit"
  shows "\<exists>rows. reader_rows self lines = Inr rows"
  using assms
proof (induction lines arbitrary: self)
  case Nil
  show ?case by simp
next
  case (Cons l ls)
  from Cons.prems have "\<forall>c \<in> set l. c \<noteq> CHR 0x0A \<and> c \<noteq> CHR 0x0D"
    "length (field self) + length l \<le> field_limit" by simp_all
  from parse_line_ok[OF Cons.prems(1) this] obtain s1 where s1: "parse_line self l = Inr s1"
    "state s1 = START_RECORD \<or> state s1 = IN_QUOTED_FIELD"
    "length (field s1) \<le> length (field self) + length l" by blast
  from Cons.prems have ls: "\<forall>l \<in> set ls. \<forall>c \<in> set l. c \<noteq> CHR 0x0A \<and> c \<noteq> CHR 0x0D" by simp
  show ?case
  proof (cases "state s1 = START_RECORD")
    case True
    have "state parse_reset \<noteq> EAT_CRNL" by (simp add: parse_reset_def)
    moreover from Cons.prems(3)
    have "length (field parse_reset) + sum_list (map length ls) \<le> field_limit"
      by (simp add: parse_reset_def)
    ultimately obtain rows where "reader_rows parse_reset ls = Inr rows"
      using Cons.IH[OF _ ls] by blast
    with s1 True show ?thesis by simp
  next
    case False
    with s1(2) have "state s1 \<noteq> EAT_CRNL" by auto
    moreover from Cons.prems(3) s1(3)
    have "length (field s1) + sum_list (map length ls) \<le> field_limit" by simp
    ultimately obtain rows where "reader_rows s1 ls = Inr rows"
      using Cons.IH[OF _ ls] by blast
    with s1 False show ?thesis by simp
  qed
qed

lemma split_from_props:
  "(\<forall>l \<in> set (split_from line cs). \<forall>c \<in> set l. c \<in> set line \<or> c \<in> set cs \<and> \<not> linebreak c)
   \<and> sum_list (map length (split_from line cs)) \<le> length line + length cs"
proof (induction line cs rule: split_from.induct)
  case (1 line)
  show ?case by simp
next
  case (2 line c cs)
  show ?case
  proof (cases "linebreak c")
    case True
    define cs' where "cs' = (if c = CHR 0x0D \<and> cs \<noteq> [] \<and> hd cs = CHR 0x0A then tl cs else cs)"
    have len: "length cs' \<le> length cs" by (simp add: cs'_def)
    have sub: "set cs' \<subseteq> set cs" by (auto simp: cs'_def dest: list.set_sel(2))
    from 2(1)[OF True]
    have ih: "\<forall>l \<in> set (split_from [] cs'). \<forall>c \<in> set l. c \<in> set cs' \<and> \<not> linebreak c"
      "sum_list (map length (split_from [] cs')) \<le> length cs'"
      unfolding cs'_def by simp_all
    have eq: "split_from line (c # cs) = line # split_from [] cs'"
      using True by (simp add: cs'_def)
    show ?thesis unfolding eq using ih len sub by auto
  next
    case False
    from 2(2)[OF False] have ih:
      "\<forall>l \<in> set (split_from (line @ [c]) cs). \<forall>x \<in> set l.
         x \<in> set (line @ [c]) \<or> x \<in> set cs \<and> \<not> linebreak x"
      "sum_list (map length (split_from (line @ [c]) cs)) \<le> length (line @ [c]) + length cs"
      by simp_all
    have eq: "split_from line (c # cs) = split_from (line @ [c]) cs" using False by simp
    show ?thesis unfolding eq using ih False by auto
  qed
qed

lemma splitlines_props:
  "\<forall>l \<in> set (splitlines data). \<forall>c \<in> set l. c \<in> set data \<and> \<not> linebreak c"
  "sum_list (map length (splitlines data)) \<le> length data"
  using split_from_props[of "[]" data] by (simp_all add: splitlines_def)

lemma linebreak_crnl: "\<not> linebreak c \<Longrightarrow> c \<noteq> CHR 0x0A \<and> c \<noteq> CHR 0x0D"
  by (auto simp: linebreak_def)

lemma process_csv_returns:
  assumes "length data \<le> field_limit"
  shows "\<exists>entries. process_csv data = Inr entries"
proof -
  have a: "state parse_reset \<noteq> EAT_CRNL" by (simp add: parse_reset_def)
  have b: "\<forall>l \<in> set (splitlines data). \<forall>c \<in> set l. c \<noteq> CHR 0x0A \<and> c \<noteq> CHR 0x0D"
  proof (intro ballI)
    fix l c assume "l \<in> set (splitlines data)" "c \<in> set l"
    with splitlines_props(1)[of data] have "\<not> linebreak c" by simp
    then show "c \<noteq> CHR 0x0A \<and> c \<noteq> CHR 0x0D" by (rule linebreak_crnl)
  qed
  have c: "length (field parse_reset) + sum_list (map length (splitlines data)) \<le> field_limit"
    using splitlines_props(2)[of data] assms by (simp add: parse_reset_def)
  from reader_rows_ok[OF a b c] obtain rows
    where "reader_rows parse_reset (splitlines data) = Inr rows" ..
  then show ?thesis by (simp add: process_csv_def csv_reader_def)
qed

lemma split_at_first: "\<exists>f \<in> set (split_at sep cur cs). length cur \<le> length f"
proof (induction cs arbitrary: cur)
  case Nil
  show ?case by simp
next
  case (Cons c cs)
  from Cons[of "cur @ [c]"] obtain f where "f \<in> set (split_at sep (cur @ [c]) cs)"
    "length cur \<le> length f" by auto
  then show ?case by (cases "c = sep") auto
qed

lemma parse_line_plain:
  assumes "state self = START_FIELD \<or> state self = IN_FIELD"
    "\<forall>c \<in> set l. c \<noteq> CHR 0x22 \<and> c \<noteq> CHR 0x0A \<and> c \<noteq> CHR 0x0D"
    "length (field self) \<le> field_limit"
  shows "parse_line self l =
     (if \<forall>f \<in> set (split_at (CHR '','') (field self) l). length f \<le> field_limit
      then Inr \<lparr>state = START_RECORD,
                fields' = fields' self @ split_at (CHR '','') (field self) l, field = []\<rparr>
      else Inl Field_limit)"
  using assms
proof (induction l arbitrary: self)
  case Nil
  then show ?case by (auto simp: step_defs)
next
  case (Cons c cs)
  from Cons.prems(2) have c: "c \<noteq> CHR 0x22" "c \<noteq> CHR 0x0A" "c \<noteq> CHR 0x0D"
    and cs: "\<forall>c \<in> set cs. c \<noteq> CHR 0x22 \<and> c \<noteq> CHR 0x0A \<and> c \<noteq> CHR 0x0D" by simp_all
  show ?case
  proof (cases "c = CHR '',''")
    case True
    define s1 where "s1 = (parse_save_field self)\<lparr>state := START_FIELD\<rparr>"
    have step: "parse_process_char self (Some c) = Inr s1"
      using Cons.prems(1) True by (auto simp: s1_def step_defs)
    have s1: "state s1 = START_FIELD \<or> state s1 = IN_FIELD" "length (field s1) \<le> field_limit"
      "field s1 = []" "fields' s1 = fields' self @ [field self]"
      by (simp_all add: s1_def step_defs)
    have "parse_line self (c # cs) = parse_line s1 cs"
      by (simp only: parse_line.simps step sum.case)
    also note Cons.IH[OF s1(1) cs s1(2)]
    finally show ?thesis using True Cons.prems(3) by (simp add: s1)
  next
    case False
    show ?thesis
    proof (cases "field_limit \<le> length (field self)")
      case True
      have step: "parse_process_char self (Some c) = Inl Field_limit"
        using Cons.prems(1) True False c by (auto simp: step_defs)
      from split_at_first[where cur = "field self @ [c]" and cs = cs and sep = "CHR 0x2C"]
      obtain f where "f \<in> set (split_at (CHR '','') (field self @ [c]) cs)"
        "length (field self @ [c]) \<le> length f" by blast
      with True have "\<not> (\<forall>f \<in> set (split_at (CHR '','') (field self @ [c]) cs).
        length f \<le> field_limit)" by fastforce
      moreover have "parse_line self (c # cs) = Inl Field_limit"
        by (simp only: parse_line.simps step sum.case)
      ultimately show ?thesis using False by simp
    next
      case small: False
      define s1 where "s1 = self\<lparr>state := IN_FIELD, field := field self @ [c]\<rparr>"
      have step: "parse_process_char self (Some c) = Inr s1"
        using Cons.prems(1) small False c by (auto simp: s1_def step_defs)
      have s1: "state s1 = START_FIELD \<or> state s1 = IN_FIELD" "length (field s1) \<le> field_limit"
        "field s1 = field self @ [c]" "fields' s1 = fields' self"
        using small by (simp_all add: s1_def)
      have "parse_line self (c # cs) = parse_line s1 cs"
        by (simp only: parse_line.simps step sum.case)
      also note Cons.IH[OF s1(1) cs s1(2)]
      finally show ?thesis using False by (simp add: s1)
    qed
  qed
qed

lemma parse_line_reset:
  assumes "\<forall>c \<in> set l. c \<noteq> CHR 0x22 \<and> c \<noteq> CHR 0x0A \<and> c \<noteq> CHR 0x0D"
  shows "parse_line parse_reset l =
     (if \<forall>f \<in> set (comma_fields l). length f \<le> field_limit
      then Inr \<lparr>state = START_RECORD, fields' = comma_fields l, field = []\<rparr>
      else Inl Field_limit)"
proof (cases l)
  case Nil
  then show ?thesis by (simp add: comma_fields_def parse_reset_def)
next
  case (Cons c cs)
  define s0 where "s0 = parse_reset\<lparr>state := START_FIELD\<rparr>"
  from assms Cons have c: "c \<noteq> CHR 0x0A" "c \<noteq> CHR 0x0D" by simp_all
  have "parse_process_char parse_reset (Some c) = parse_process_char s0 (Some c)"
    using c by (simp add: s0_def parse_reset_def step_defs)
  then have "parse_line parse_reset l = parse_line s0 l"
    unfolding Cons by (simp only: parse_line.simps)
  moreover have "state s0 = START_FIELD \<or> state s0 = IN_FIELD" "length (field s0) \<le> field_limit"
    "field s0 = []" "fields' s0 = []"
    by (simp_all add: s0_def parse_reset_def)
  ultimately show ?thesis using parse_line_plain[OF _ assms, of s0] Cons
    by (simp add: comma_fields_def)
qed

lemma reader_rows_plain:
  assumes "\<forall>l \<in> set lines. \<forall>c \<in> set l. c \<noteq> CHR 0x22 \<and> c \<noteq> CHR 0x0A \<and> c \<noteq> CHR 0x0D"
  shows "reader_rows parse_reset lines =
     (if \<forall>l \<in> set lines. \<forall>f \<in> set (comma_fields l). length f \<le> field_limit
      then Inr (map comma_fields lines) else Inl Field_limit)"
  using assms
proof (induction lines)
  case Nil
  show ?case by (simp add: parse_reset_def)
next
  case (Cons l ls)
  from Cons.prems have l: "\<forall>c \<in> set l. c \<noteq> CHR 0x22 \<and> c \<noteq> CHR 0x0A \<and> c \<noteq> CHR 0x0D"
    and ls: "\<forall>l \<in> set ls. \<forall>c \<in> set l. c \<noteq> CHR 0x22 \<and> c \<noteq> CHR 0x0A \<and> c \<noteq> CHR 0x0D"
    by simp_all
  show ?case
    by (simp add: parse_line_reset[OF l] Cons.IH[OF ls] del: parse_line.simps)
qed

lemma step_error:
  assumes "state self \<noteq> EAT_CRNL" "parse_process_char self x = Inl e"
  shows "e = Field_limit"
  using assms by (cases "state self"; cases x) (auto simp: step_defs split: if_splits)

lemma step_state:
  assumes "state self \<noteq> EAT_CRNL" "\<not> is_crnl x" "parse_process_char self x = Inr self'"
  shows "state self' \<noteq> EAT_CRNL"
  using assms by (cases "state self"; cases x) (auto simp: step_defs split: if_splits)

lemma step_chars:
  assumes "parse_process_char self x = Inr self'" "\<forall>c. x = Some c \<longrightarrow> Q c"
    "\<forall>c \<in> set (field self). Q c" "\<forall>f \<in> set (fields' self). \<forall>c \<in> set f. Q c"
  shows "(\<forall>c \<in> set (field self'). Q c) \<and> (\<forall>f \<in> set (fields' self'). \<forall>c \<in> set f. Q c)"
  using assms by (cases "state self"; cases x) (auto simp: step_defs split: if_splits)

lemma parse_line_inv:
  assumes "state self \<noteq> EAT_CRNL" "\<forall>c \<in> set l. Q c \<and> c \<noteq> CHR 0x0A \<and> c \<noteq> CHR 0x0D"
    "\<forall>c \<in> set (field self). Q c" "\<forall>f \<in> set (fields' self). \<forall>c \<in> set f. Q c"
  shows "case parse_line self l of
           Inl e \<Rightarrow> e = Field_limit
         | Inr self' \<Rightarrow> state self' \<noteq> EAT_CRNL \<and> (\<forall>c \<in> set (field self'). Q c)
             \<and> (\<forall>f \<in> set (fields' self'). \<forall>c \<in> set f. Q c)"
  using assms
proof (induction l arbitrary: self)
  case Nil
  show ?case
  proof (cases "parse_process_char self None")
    case (Inl e)
    with step_error[OF Nil.prems(1) Inl] show ?thesis by (simp del: parse_process_char.simps)
  next
    case (Inr s1)
    from step_state[OF Nil.prems(1) _ Inr] have "state s1 \<noteq> EAT_CRNL" by (simp add: is_crnl_def)
    moreover from step_chars[OF Inr _ Nil.prems(3,4)]
    have "(\<forall>c \<in> set (field s1). Q c) \<and> (\<forall>f \<in> set (fields' s1). \<forall>c \<in> set f. Q c)" by simp
    ultimately show ?thesis using Inr by (simp del: parse_process_char.simps)
  qed
next
  case (Cons c cs)
  from Cons.prems(2) have c: "Q c" "\<not> is_crnl (Some c)"
    and cs: "\<forall>c \<in> set cs. Q c \<and> c \<noteq> CHR 0x0A \<and> c \<noteq> CHR 0x0D" by (simp_all add: is_crnl_def)
  show ?case
  proof (cases "parse_process_char self (Some c)")
    case (Inl e)
    with step_error[OF Cons.prems(1) Inl] show ?thesis by (simp del: parse_process_char.simps)
  next
    case (Inr s1)
    have st: "state s1 \<noteq> EAT_CRNL" by (rule step_state[OF Cons.prems(1) c(2) Inr])
    from step_chars[OF Inr _ Cons.prems(3,4)] c(1)
    have ch: "\<forall>c \<in> set (field s1). Q c" "\<forall>f \<in> set (fields' s1). \<forall>c \<in> set f. Q c" by simp_all
    have "parse_line self (c # cs) = parse_line s1 cs"
      by (simp only: parse_line.simps Inr sum.case)
    with Cons.IH[OF st cs ch] show ?thesis by (simp only:)
  qed
qed

lemma reader_rows_inv:
  assumes "state self \<noteq> EAT_CRNL"
    "\<forall>l \<in> set lines. \<forall>c \<in> set l. Q c \<and> c \<noteq> CHR 0x0A \<and> c \<noteq> CHR 0x0D"
    "\<forall>c \<in> set (field self). Q c" "\<forall>f \<in> set (fields' self). \<forall>c \<in> set f. Q c"
  shows "case reader_rows self lines of
           Inl e \<Rightarrow> e = Field_limit
         | Inr rows \<Rightarrow> \<forall>row \<in> set rows. \<forall>f \<in> set row. \<forall>c \<in> set f. Q c"
  using assms
proof (induction lines arbitrary: self)
  case Nil
  then show ?case by (simp add: parse_save_field_def)
next
  case (Cons l ls)
  from Cons.prems(2) have l: "\<forall>c \<in> set l. Q c \<and> c \<noteq> CHR 0x0A \<and> c \<noteq> CHR 0x0D"
    and ls: "\<forall>l \<in> set ls. \<forall>c \<in> set l. Q c \<and> c \<noteq> CHR 0x0A \<and> c \<noteq> CHR 0x0D" by simp_all
  note line = parse_line_inv[OF Cons.prems(1) l Cons.prems(3,4)]
  show ?case
  proof (cases "parse_line self l")
    case (Inl e)
    with line show ?thesis by simp
  next
    case (Inr s1)
    with line have s1: "state s1 \<noteq> EAT_CRNL" "\<forall>c \<in> set (field s1). Q c"
      "\<forall>f \<in> set (fields' s1). \<forall>c \<in> set f. Q c" by simp_all
    show ?thesis
    proof (cases "state s1 = START_RECORD")
      case True
      have "case reader_rows parse_reset ls of
              Inl e \<Rightarrow> e = Field_limit
            | Inr rows \<Rightarrow> \<forall>row \<in> set rows. \<forall>f \<in> set row. \<forall>c \<in> set f. Q c"
        by (rule Cons.IH[OF _ ls]) (simp_all add: parse_reset_def)
      with Inr True s1(3) show ?thesis by (cases "reader_rows parse_reset ls") simp_all
    next
      case False
      with Inr Cons.IH[OF s1(1) ls s1(2,3)] show ?thesis by simp
    qed
  qed
qed

lemma csv_reader_inv:
  "case csv_reader (splitlines data) of
     Inl e \<Rightarrow> e = Field_limit
   | Inr rows \<Rightarrow> \<forall>row \<in> set rows. \<forall>f \<in> set row. \<forall>c \<in> set f. c \<in> set data \<and> \<not> linebreak c"
proof -
  have a: "state parse_reset \<noteq> EAT_CRNL" by (simp add: parse_reset_def)
  have b: "\<forall>l \<in> set (splitlines data). \<forall>c \<in> set l.
    (c \<in> set data \<and> \<not> linebreak c) \<and> c \<noteq> CHR 0x0A \<and> c \<noteq> CHR 0x0D"
  proof (intro ballI)
    fix l c assume "l \<in> set (splitlines data)" "c \<in> set l"
    with splitlines_props(1)[of data] have c: "c \<in> set data \<and> \<not> linebreak c" by simp
    with linebreak_crnl[of c]
    show "(c \<in> set data \<and> \<not> linebreak c) \<and> c \<noteq> CHR 0x0A \<and> c \<noteq> CHR 0x0D" by simp
  qed
  have c: "\<forall>c \<in> set (field parse_reset). c \<in> set data \<and> \<not> linebreak c"
    and d: "\<forall>f \<in> set (fields' parse_reset). \<forall>c \<in> set f. c \<in> set data \<and> \<not> linebreak c"
    by (simp_all add: parse_reset_def)
  show ?thesis unfolding csv_reader_def by (rule reader_rows_inv[OF a b c d])
qed



lemma process_csv_plain:
  assumes "CHR 0x22 \<notin> set data"
  shows "process_csv data =
     (if \<forall>line \<in> set (splitlines data). \<forall>f \<in> set (comma_fields line). length f \<le> field_limit
      then Inr (map entry_of (filter (\<lambda>row. 5 \<le> length row)
                  (map comma_fields (splitlines data))))
      else Inl Field_limit)"
proof -
  have "\<forall>l \<in> set (splitlines data). \<forall>c \<in> set l. c \<noteq> CHR 0x22 \<and> c \<noteq> CHR 0x0A \<and> c \<noteq> CHR 0x0D"
  proof (intro ballI)
    fix l c assume "l \<in> set (splitlines data)" "c \<in> set l"
    with splitlines_props(1)[of data] have c: "c \<in> set data \<and> \<not> linebreak c" by simp
    with linebreak_crnl[of c] assms
    show "c \<noteq> CHR 0x22 \<and> c \<noteq> CHR 0x0A \<and> c \<noteq> CHR 0x0D" by auto
  qed
  from reader_rows_plain[OF this] show ?thesis
    by (simp add: process_csv_def csv_reader_def collect_entries_eq)
qed

lemma process_csv_error:
  assumes "csv_reader (splitlines data) = Inl e"
  shows "e = Field_limit"
  using csv_reader_inv[of data] assms by simp


lemma split_from_plain:
  assumes "\<forall>c \<in> set cs. \<not> linebreak c"
  shows "split_from line cs = (if line @ cs = [] then [] else [line @ cs])"
  using assms by (induction cs arbitrary: line) simp_all

lemma split_at_plain:
  assumes "sep \<notin> set cs"
  shows "split_at sep cur cs = [cur @ cs]"
  using assms by (induction cs arbitrary: cur) auto

lemma long_field_lines:
  "splitlines long_field = [long_field]" "comma_fields long_field = [long_field]"
  "CHR 0x22 \<notin> set long_field" "length long_field = Suc field_limit"
proof -
  have "\<forall>c \<in> set long_field. \<not> linebreak c" by (simp add: long_field_def linebreak_def)
  from split_from_plain[OF this, of "[]"] show "splitlines long_field = [long_field]"
    by (simp add: splitlines_def long_field_def)
  have "CHR '','' \<notin> set long_field" by (simp add: long_field_def)
  from split_at_plain[OF this, of "[]"] show "comma_fields long_field = [long_field]"
    by (simp add: comma_fields_def long_field_def)
  show "CHR 0x22 \<notin> set long_field" by (simp add: long_field_def)
  show "length long_field = Suc field_limit" by (simp add: long_field_def)
qed

lemmas csv_eval = parse_reset_def parse_save_field_def parse_add_char_def is_crnl_def
  set_state_def field_limit_def line_fields_def csv_reader_def

lemma parse_line_state:
  assumes "parse_line self l = Inr s1"
  shows "state s1 = START_RECORD \<or> state s1 = IN_QUOTED_FIELD"
  using assms
proof (induction l arbitrary: self)
  case Nil
  then show ?case by (cases "state self") (auto simp: step_defs split: if_splits)
next
  case (Cons c cs)
  then show ?case by (auto simp del: parse_process_char.simps split: sum.splits)
qed

lemma parse_line_append:
  assumes "parse_line self l = Inr s1" "state s1 = IN_QUOTED_FIELD"
  shows "parse_line self (l @ l2) = parse_line s1 l2"
  using assms
proof (induction l arbitrary: self)
  case Nil
  then have "self = s1" by (cases "state self") (auto simp: step_defs split: if_splits)
  then show ?case by simp
next
  case (Cons c cs)
  then show ?case by (auto simp del: parse_process_char.simps split: sum.splits)
qed

lemma reader_rows_join:
  assumes "parse_line parse_reset l = Inr s1" "state s1 = IN_QUOTED_FIELD"
  shows "reader_rows parse_reset (l # l2 # ls) = reader_rows parse_reset ((l @ l2) # ls)"
  using assms parse_line_append[OF assms, of l2] by simp

lemma reader_rows_join_lines: "reader_rows parse_reset lines = rows_of (join_lines lines)"
proof (induction lines rule: join_lines.induct)
  case (3 l l2 ls)
  show ?case
  proof (cases "parse_line parse_reset l")
    case (Inl e)
    then show ?thesis by (simp add: open_line_def line_row_def)
  next
    case (Inr s1)
    show ?thesis
    proof (cases "state s1 = START_RECORD")
      case True
      with Inr have o: "\<not> open_line l" by (simp add: open_line_def)
      from 3(2)[OF o] Inr True o show ?thesis by (simp add: line_row_def)
    next
      case False
      with parse_line_state[OF Inr] have q: "state s1 = IN_QUOTED_FIELD" by simp
      with Inr have o: "open_line l" by (simp add: open_line_def)
      from reader_rows_join[OF Inr q, of l2 ls] 3(1)[OF o] o show ?thesis by simp
    qed
  qed
next
  case 1
  show ?case by (simp add: parse_reset_def)
next
  case (2 l)
  show ?case
  proof (cases "parse_line parse_reset l")
    case (Inl e)
    then show ?thesis by (simp add: line_row_def)
  next
    case (Inr s1)
    from parse_line_state[OF Inr] show ?thesis
    proof
      assume "state s1 = START_RECORD"
      with Inr show ?thesis by (simp add: line_row_def parse_reset_def)
    next
      assume "state s1 = IN_QUOTED_FIELD"
      with Inr show ?thesis by (simp add: line_row_def parse_save_field_def)
    qed
  qed
qed

text \<open>
  C5 (as amended). \<open>process_csv\<close> returns for every text of at most 131072 characters,
  and when it does not return it is because a field is longer than that. The records
  are made from the rows of the reader: a row with fewer than five fields is skipped
  and a row with five or more fields gives exactly one record, of its first five
  fields without the surrounding whitespace, in the order of the rows; the empty text
  gives no record. A row is a line read on its own, after every line that leaves a
  quoted field open has been put together with the line that follows it; what a last
  line with an open quoted field holds is a row too. So when no line leaves a quoted
  field open, the rows are the lines, each split by the reader; and in a text without
  a double quote a row is a line split at its commas.
\<close>

theorem process_csv_rows:
  "process_csv [] = Inr []
   \<and> csv_reader lines = rows_of (join_lines lines)
   \<and> process_csv data =
       (case rows_of (join_lines (splitlines data)) of
          Inl e \<Rightarrow> Inl e
        | Inr rows \<Rightarrow> Inr (map entry_of (filter (\<lambda>row. 5 \<le> length row) rows)))
   \<and> (\<forall>rows. csv_reader (splitlines data) = Inr rows \<longrightarrow>
         process_csv data = Inr (map entry_of (filter (\<lambda>row. 5 \<le> length row) rows)))
   \<and> (\<forall>e. csv_reader (splitlines data) = Inl e \<longrightarrow>
         process_csv data = Inl e \<and> e = Field_limit)
   \<and> ((\<forall>line \<in> set (splitlines data). line_fields line \<noteq> None) \<longrightarrow>
         csv_reader (splitlines data)
           = Inr (map (\<lambda>line. the (line_fields line)) (splitlines data)))
   \<and> (CHR 0x22 \<notin> set data \<longrightarrow>
         process_csv data =
           (if \<forall>line \<in> set (splitlines data). \<forall>f \<in> set (comma_fields line).
                 length f \<le> field_limit
            then Inr (map entry_of (filter (\<lambda>row. 5 \<le> length row)
                        (map comma_fields (splitlines data))))
            else Inl Field_limit))
   \<and> (length data \<le> field_limit \<longrightarrow> (\<exists>entries. process_csv data = Inr entries))"
proof (intro conjI allI impI)
  show "process_csv [] = Inr []"
    by (simp add: process_csv_def splitlines_def csv_reader_def parse_reset_def)
next
  show "csv_reader lines = rows_of (join_lines lines)"
    unfolding csv_reader_def by (rule reader_rows_join_lines)
next
  show "process_csv data =
       (case rows_of (join_lines (splitlines data)) of
          Inl e \<Rightarrow> Inl e
        | Inr rows \<Rightarrow> Inr (map entry_of (filter (\<lambda>row. 5 \<le> length row) rows)))"
    by (simp add: process_csv_def csv_reader_def reader_rows_join_lines collect_entries_eq
        split: sum.splits)
next
  fix rows assume "csv_reader (splitlines data) = Inr rows"
  then show "process_csv data = Inr (map entry_of (filter (\<lambda>row. 5 \<le> length row) rows))"
    by (simp add: process_csv_def collect_entries_eq)
next
  fix e assume "csv_reader (splitlines data) = Inl e"
  then show "process_csv data = Inl e" by (simp add: process_csv_def)
next
  fix e assume "csv_reader (splitlines data) = Inl e"
  then show "e = Field_limit" by (rule process_csv_error)
next
  assume "\<forall>line \<in> set (splitlines data). line_fields line \<noteq> None"
  then show "csv_reader (splitlines data)
           = Inr (map (\<lambda>line. the (line_fields line)) (splitlines data))"
    unfolding csv_reader_def by (rule reader_rows_lines)
next
  assume "CHR 0x22 \<notin> set data"
  then show "process_csv data =
           (if \<forall>line \<in> set (splitlines data). \<forall>f \<in> set (comma_fields line).
                 length f \<le> field_limit
            then Inr (map entry_of (filter (\<lambda>row. 5 \<le> length row)
                        (map comma_fields (splitlines data))))
            else Inl Field_limit)"
    by (rule process_csv_plain)
next
  assume "length data \<le> field_limit"
  then show "\<exists>entries. process_csv data = Inr entries" by (rule process_csv_returns)
qed

text \<open>
  A text with a quoted field and a short line; a text without a double quote, with an
  empty line; a line of one field of 131073 characters; and a text whose first row
  takes three lines and whose last line leaves a quoted field open.
\<close>

theorem process_csv_rows_witness:
  "splitlines csv_text = [''/x.png , t,\"F/3, x\",200,12,extra'', ''f,g,h,i'']
   \<and> line_fields ''f,g,h,i'' = Some [''f'', ''g'', ''h'', ''i'']
   \<and> process_csv csv_text
       = Inr [\<lparr>path = ''/x.png'', datetime = ''t'', browser = ''F/3, x'',
               status = ''200'', size' = ''12''\<rparr>]
   \<and> length csv_text \<le> field_limit
   \<and> (\<exists>entries. process_csv csv_text = Inr entries)
   \<and> CHR 0x22 \<notin> set plain_text
   \<and> map comma_fields (splitlines plain_text)
       = [[''/a.gif'', '' t '', ''ua'', ''200'', ''1''], [], [''x'', ''y'']]
   \<and> process_csv plain_text
       = Inr [\<lparr>path = ''/a.gif'', datetime = ''t'', browser = ''ua'',
               status = ''200'', size' = ''1''\<rparr>]
   \<and> csv_reader (splitlines long_field) = Inl Field_limit
   \<and> process_csv long_field = Inl Field_limit
   \<and> join_lines (splitlines joined_text) = [''/p,\"tuv\",b,s,z'', ''x,y,\"w'']
   \<and> csv_reader (splitlines joined_text)
       = Inr [[''/p'', ''tuv'', ''b'', ''s'', ''z''], [''x'', ''y'', ''w'']]
   \<and> process_csv joined_text
       = Inr [\<lparr>path = ''/p'', datetime = ''tuv'', browser = ''b'',
               status = ''s'', size' = ''z''\<rparr>]"
proof -
  have a: "splitlines csv_text = [''/x.png , t,\"F/3, x\",200,12,extra'', ''f,g,h,i'']"
    by code_simp
  have b: "line_fields ''f,g,h,i'' = Some [''f'', ''g'', ''h'', ''i'']"
    by (simp add: csv_eval)
  have c: "line_fields ''/x.png , t,\"F/3, x\",200,12,extra''
     = Some [''/x.png '', '' t'', ''F/3, x'', ''200'', ''12'', ''extra'']"
    by (simp add: csv_eval)
  have h: "\<forall>line \<in> set (splitlines csv_text). line_fields line \<noteq> None"
    unfolding a using b c by simp
  note t = process_csv_rows[of "[]" csv_text]
  from mp[OF conjunct1[OF conjunct2[OF conjunct2[OF conjunct2[OF conjunct2[OF conjunct2[OF t]]]]]] h]
  have r: "csv_reader (splitlines csv_text)
     = Inr [[''/x.png '', '' t'', ''F/3, x'', ''200'', ''12'', ''extra''],
            [''f'', ''g'', ''h'', ''i'']]"
    unfolding a using b c by simp
  have e: "map entry_of (filter (\<lambda>row. 5 \<le> length row)
      [[''/x.png '', '' t'', ''F/3, x'', ''200'', ''12'', ''extra''],
       [''f'', ''g'', ''h'', ''i'']])
     = [\<lparr>path = ''/x.png'', datetime = ''t'', browser = ''F/3, x'',
               status = ''200'', size' = ''12''\<rparr>]"
    by code_simp
  from mp[OF spec[OF conjunct1[OF conjunct2[OF conjunct2[OF conjunct2[OF t]]]]] r]
  have p: "process_csv csv_text
       = Inr [\<lparr>path = ''/x.png'', datetime = ''t'', browser = ''F/3, x'',
               status = ''200'', size' = ''12''\<rparr>]"
    unfolding e .
  have l: "length csv_text \<le> field_limit" by (simp add: csv_text_def field_limit_def)
  have x: "\<exists>entries. process_csv csv_text = Inr entries"
    by (rule mp[OF conjunct2[OF conjunct2[OF conjunct2[OF conjunct2[OF conjunct2[OF conjunct2[OF conjunct2[OF t]]]]]]] l])
  note u = process_csv_rows[of "[]" plain_text]
  have q: "CHR 0x22 \<notin> set plain_text" by (simp add: plain_text_def newline_def)
  have s: "splitlines plain_text = [''/a.gif, t ,ua,200,1'', [], ''x,y'']" by code_simp
  have f: "map comma_fields [''/a.gif, t ,ua,200,1'', [], ''x,y'']
       = [[''/a.gif'', '' t '', ''ua'', ''200'', ''1''], [], [''x'', ''y'']]" by code_simp
  have m: "map comma_fields (splitlines plain_text)
       = [[''/a.gif'', '' t '', ''ua'', ''200'', ''1''], [], [''x'', ''y'']]"
    unfolding s by (rule f)
  have g: "\<forall>line \<in> set (splitlines plain_text). \<forall>f \<in> set (comma_fields line).
    length f \<le> field_limit"
    unfolding s using f by (simp add: field_limit_def)
  have k: "map entry_of (filter (\<lambda>row. 5 \<le> length row)
      [[''/a.gif'', '' t '', ''ua'', ''200'', ''1''], [], [''x'', ''y'']])
     = [\<lparr>path = ''/a.gif'', datetime = ''t'', browser = ''ua'',
               status = ''200'', size' = ''1''\<rparr>]"
    by code_simp
  from mp[OF conjunct1[OF conjunct2[OF conjunct2[OF conjunct2[OF conjunct2[OF conjunct2[OF conjunct2[OF u]]]]]]] q]
  have n: "process_csv plain_text
       = Inr [\<lparr>path = ''/a.gif'', datetime = ''t'', browser = ''ua'',
               status = ''200'', size' = ''1''\<rparr>]"
    by (simp only: eqTrueI[OF g] if_True m k)
  note v = process_csv_rows[of "[]" long_field]
  have "\<not> (\<forall>line \<in> set (splitlines long_field). \<forall>f \<in> set (comma_fields line).
    length f \<le> field_limit)"
    by (simp add: long_field_lines)
  with mp[OF conjunct1[OF conjunct2[OF conjunct2[OF conjunct2[OF conjunct2[OF conjunct2[OF
    conjunct2[OF v]]]]]]] long_field_lines(3)]
  have w: "process_csv long_field = Inl Field_limit" by (simp only: if_False)
  have "\<exists>e. csv_reader (splitlines long_field) = Inl e"
    using w by (auto simp: process_csv_def split: sum.splits)
  then obtain e where e': "csv_reader (splitlines long_field) = Inl e" ..
  from mp[OF spec[OF conjunct1[OF conjunct2[OF conjunct2[OF conjunct2[OF conjunct2[OF v]]]]]] e']
  have y: "csv_reader (splitlines long_field) = Inl Field_limit" using e' by simp
  have sj: "splitlines joined_text = [''/p,\"t'', ''u'', ''v\",b,s,z'', ''x,y,\"w'']"
    by code_simp
  have o1: "open_line ''/p,\"t''" and o2: "open_line ''/p,\"tu''"
    and o3: "\<not> open_line ''/p,\"tuv\",b,s,z''"
    by (simp_all add: open_line_def csv_eval)
  have j: "join_lines (splitlines joined_text) = [''/p,\"tuv\",b,s,z'', ''x,y,\"w'']"
    unfolding sj using o1 o2 o3 by simp
  have r1: "line_row ''/p,\"tuv\",b,s,z'' = Inr [''/p'', ''tuv'', ''b'', ''s'', ''z'']"
    and r2: "line_row ''x,y,\"w'' = Inr [''x'', ''y'', ''w'']"
    by (simp_all add: line_row_def csv_eval)
  have ro: "rows_of [''/p,\"tuv\",b,s,z'', ''x,y,\"w'']
       = Inr [[''/p'', ''tuv'', ''b'', ''s'', ''z''], [''x'', ''y'', ''w'']]"
    by (simp only: rows_of.simps r1 r2 sum.case)
  have en: "map entry_of (filter (\<lambda>row. 5 \<le> length row)
      [[''/p'', ''tuv'', ''b'', ''s'', ''z''], [''x'', ''y'', ''w'']])
     = [\<lparr>path = ''/p'', datetime = ''tuv'', browser = ''b'', status = ''s'', size' = ''z''\<rparr>]"
    by code_simp
  note z = process_csv_rows[of "splitlines joined_text" joined_text]
  from conjunct1[OF conjunct2[OF z]]
  have cj: "csv_reader (splitlines joined_text)
       = Inr [[''/p'', ''tuv'', ''b'', ''s'', ''z''], [''x'', ''y'', ''w'']]"
    by (simp only: j ro)
  from conjunct1[OF conjunct2[OF conjunct2[OF z]]]
  have pj: "process_csv joined_text
       = Inr [\<lparr>path = ''/p'', datetime = ''tuv'', browser = ''b'',
               status = ''s'', size' = ''z''\<rparr>]"
    by (simp only: j ro sum.case en)
  show ?thesis by (intro conjI a b p l x q m n y w j cj pj)
qed

text \<open>
  C5 as the specification has it fails on two texts. In the first, each of the two
  lines alone has five fields, but the quoted field that the first line leaves open
  goes on in the second, and the two lines give one record, not two. The second is one
  field of 131073 characters, on which the reader raises \<open>_csv.Error\<close>.
\<close>

theorem open_quote_counterexample:
  "splitlines open_quote_text = [''a,b,c,d,\"e'', ''f,g,h,i,j'']
   \<and> csv_reader [''a,b,c,d,\"e''] = Inr [[''a'', ''b'', ''c'', ''d'', ''e'']]
   \<and> csv_reader [''f,g,h,i,j''] = Inr [[''f'', ''g'', ''h'', ''i'', ''j'']]
   \<and> process_csv open_quote_text
       = Inr [\<lparr>path = ''a'', datetime = ''b'', browser = ''c'', status = ''d'',
               size' = ''ef,g,h,i,j''\<rparr>]
   \<and> length long_field = 131073
   \<and> process_csv long_field = Inl Field_limit"
proof -
  have a: "splitlines open_quote_text = [''a,b,c,d,\"e'', ''f,g,h,i,j'']" by code_simp
  have b: "csv_reader [''a,b,c,d,\"e''] = Inr [[''a'', ''b'', ''c'', ''d'', ''e'']]"
    by (simp add: csv_eval)
  have c: "csv_reader [''f,g,h,i,j''] = Inr [[''f'', ''g'', ''h'', ''i'', ''j'']]"
    by (simp add: csv_eval)
  have d: "csv_reader [''a,b,c,d,\"e'', ''f,g,h,i,j'']
             = Inr [[''a'', ''b'', ''c'', ''d'', ''ef,g,h,i,j'']]"
    by (simp add: csv_eval)
  have e: "collect_entries [] [[''a'', ''b'', ''c'', ''d'', ''ef,g,h,i,j'']]
       = [\<lparr>path = ''a'', datetime = ''b'', browser = ''c'', status = ''d'',
               size' = ''ef,g,h,i,j''\<rparr>]"
    by code_simp
  have p: "process_csv open_quote_text
       = Inr [\<lparr>path = ''a'', datetime = ''b'', browser = ''c'', status = ''d'',
               size' = ''ef,g,h,i,j''\<rparr>]"
    unfolding process_csv_def a d by (simp only: sum.case e)
  have l: "length long_field = 131073" by (simp add: long_field_def field_limit_def)
  have "\<not> (\<forall>line \<in> set (splitlines long_field). \<forall>f \<in> set (comma_fields line).
    length f \<le> field_limit)"
    by (simp add: long_field_lines)
  with process_csv_plain[OF long_field_lines(3)]
  have w: "process_csv long_field = Inl Field_limit" by (simp only: if_False)
  show ?thesis by (intro conjI a b c p l w)
qed

section \<open>Image requests among the records of \<open>process_csv\<close>\<close>





text \<open>
  The hypothesis bears on records that are not made by \<open>process_csv\<close>: \<open>$\<close> also matches
  before a line feed that ends the string, and \<open>.\<close> does not match a line feed.
\<close>

lemma image_regex_line_feed:
  "find_image_requests [sample_entry (''foo.jpg'' @ [newline]) ''x'' ''a''] = Inr (1, 100)
   \<and> \<not> image_path (''foo.jpg'' @ [newline])
   \<and> find_image_requests [sample_entry (''a'' @ [newline] @ ''b.jpg'') ''x'' ''a''] = Inr (0, 0)
   \<and> image_path (''a'' @ [newline] @ ''b.jpg'')"
  by code_simp

end
